theory Spec2Isabelle
  imports Complex_Main "HOL-Library.Log_Nat" "HOL-Library.List_Lexorder"
begin

section \<open>Python strings\<close>

text \<open>
  A Python \<open>str\<close> is a sequence of Unicode code points, and the scraper tests for code
  points beyond one byte (the no-break space U+00A0, the zero-width space U+200B, the bullet
  U+2022). A string is
  therefore a list of code points, each a natural number; \<open>str\<close> turns an ASCII
  literal into such a list.

  Scope of the library model: \<open>str.isspace\<close> is the full table of CPython;
  \<open>str.lower\<close> is modelled on the letters \<open>A\<close>..\<open>Z\<close> and leaves every other code point
  as it is; the digit class of \<open>re\<close> is modelled on the digits \<open>0\<close>..\<open>9\<close>.
\<close>

type_synonym pystr = "nat list"

definition str :: "string \<Rightarrow> pystr" where
  "str s = map of_char s"

definition is_space :: "nat \<Rightarrow> bool" where
  "is_space c \<longleftrightarrow>
     (9 \<le> c \<and> c \<le> 13) \<or> (28 \<le> c \<and> c \<le> 32) \<or> c = 133 \<or> c = 160 \<or> c = 5760 \<or>
     (8192 \<le> c \<and> c \<le> 8202) \<or> c = 8232 \<or> c = 8233 \<or> c = 8239 \<or> c = 8287 \<or> c = 12288"

definition lstrip :: "pystr \<Rightarrow> pystr" where
  "lstrip s = dropWhile is_space s"

definition rstrip :: "pystr \<Rightarrow> pystr" where
  "rstrip s = rev (dropWhile is_space (rev s))"

definition strip :: "pystr \<Rightarrow> pystr" where
  "strip s = rstrip (lstrip s)"

definition lower_char :: "nat \<Rightarrow> nat" where
  "lower_char c = (if 65 \<le> c \<and> c \<le> 90 then c + 32 else c)"

definition lower :: "pystr \<Rightarrow> pystr" where
  "lower s = map lower_char s"

text \<open>\<open>s.replace(a, b)\<close> for a one-character \<open>a\<close>: every occurrence becomes the string \<open>b\<close>.\<close>

definition replace_char :: "nat \<Rightarrow> pystr \<Rightarrow> pystr \<Rightarrow> pystr" where
  "replace_char a b s = concat (map (\<lambda>c. if c = a then b else [c]) s)"

text \<open>\<open>p in s\<close>: the string \<open>p\<close> occurs in \<open>s\<close> as a contiguous block.\<close>

fun starts_with :: "pystr \<Rightarrow> pystr \<Rightarrow> bool" where
  "starts_with [] s = True"
| "starts_with (p # ps) [] = False"
| "starts_with (p # ps) (c # cs) = (p = c \<and> starts_with ps cs)"

fun contains :: "pystr \<Rightarrow> pystr \<Rightarrow> bool" where
  "contains p [] = (p = [])"
| "contains p (c # cs) = (starts_with p (c # cs) \<or> contains p cs)"

section \<open>Label normalisation\<close>

text \<open>The substitution of whitespace runs by one space: every maximal run of whitespace becomes one space.\<close>

fun collapse_ws :: "pystr \<Rightarrow> pystr" where
  "collapse_ws [] = []"
| "collapse_ws [c] = [if is_space c then 32 else c]"
| "collapse_ws (c # d # cs) =
     (if is_space c then (if is_space d then collapse_ws (d # cs) else 32 # collapse_ws (d # cs))
      else c # collapse_ws (d # cs))"

text \<open>The substitution of \<^verbatim>\<open>[.U+200B]+\<close> by the empty string: dots (46) and zero-width
  spaces (8203) are removed.\<close>

definition drop_dots :: "pystr \<Rightarrow> pystr" where
  "drop_dots s = filter (\<lambda>c. c \<noteq> 46 \<and> c \<noteq> 8203) s"

definition nlabel :: "pystr \<Rightarrow> pystr" where
  "nlabel s =
     (let s1 = replace_char 160 [32] s;
          s2 = drop_dots s1
      in lower (strip (collapse_ws s2)))"


section \<open>Dictionaries\<close>

text \<open>
  A Python \<open>dict\<close> keeps its keys in insertion order, and the scraper relies on that order when
  it writes columns. A dictionary is an association list with distinct keys: \<open>dict_set\<close> is the
  assignment \<open>d[k] = v\<close>, which overwrites in place or appends; \<open>dict_get\<close> is \<open>d.get(k)\<close>.
\<close>

type_synonym dict = "(pystr \<times> pystr) list"

fun dict_set :: "dict \<Rightarrow> pystr \<Rightarrow> pystr \<Rightarrow> dict" where
  "dict_set [] k v = [(k, v)]"
| "dict_set ((k', v') # d) k v = (if k' = k then (k, v) # d else (k', v') # dict_set d k v)"

definition dict_get :: "dict \<Rightarrow> pystr \<Rightarrow> pystr option" where
  "dict_get d k = map_of d k"

text \<open>\<open>d.get(k, x)\<close>\<close>

definition dict_get_default :: "dict \<Rightarrow> pystr \<Rightarrow> pystr \<Rightarrow> pystr" where
  "dict_get_default d k x = (case dict_get d k of None \<Rightarrow> x | Some v \<Rightarrow> v)"

definition dict_keys :: "dict \<Rightarrow> pystr list" where
  "dict_keys d = map fst d"

text \<open>\<open>d.update(e)\<close>: the items of \<open>e\<close> are assigned in their order.\<close>

definition dict_update :: "dict \<Rightarrow> dict \<Rightarrow> dict" where
  "dict_update d e = fold (\<lambda>(k, v) acc. dict_set acc k v) e d"

section \<open>Configuration\<close>

definition PREFERRED :: "pystr list" where
  "PREFERRED = map str
     [''W'', ''L'', ''W-L%'', ''ERA'',
      ''G'', ''GS'', ''GF'', ''CG'', ''SHO'', ''SV'', ''IP'',
      ''H'', ''R'', ''ER'', ''HR'', ''BB'', ''IBB'', ''SO'', ''HBP'', ''BK'', ''WP'', ''BF'',
      ''ERA+'', ''FIP'', ''WHIP'', ''H9'', ''HR9'', ''BB9'', ''SO9'', ''SO/BB'']"

definition COUNTING :: "pystr list" where
  "COUNTING = map str
     [''W'', ''L'', ''G'', ''GS'', ''GF'', ''CG'', ''SHO'', ''SV'', ''H'', ''R'', ''ER'', ''HR'',
      ''BB'', ''IBB'', ''SO'', ''HBP'', ''BF'', ''WP'', ''BK'']"

definition SKIP_ROUND :: "pystr list" where
  "SKIP_ROUND = [str ''IP'']"

definition KEY_MAP :: dict where
  "KEY_MAP = map (\<lambda>(k, v). (str k, str v))
     [(''w'', ''W''), (''l'', ''L''), (''wl_perc'', ''W-L%''), (''win_loss_perc'', ''W-L%''),
      (''earned_run_avg'', ''ERA''),
      (''g'', ''G''), (''gs'', ''GS''), (''gf'', ''GF''), (''cg'', ''CG''), (''sho'', ''SHO''),
      (''sv'', ''SV''), (''ip'', ''IP''),
      (''h'', ''H''), (''r'', ''R''), (''er'', ''ER''), (''hr'', ''HR''), (''bb'', ''BB''),
      (''ibb'', ''IBB''), (''so'', ''SO''),
      (''hbp'', ''HBP''), (''bk'', ''BK''), (''wp'', ''WP''), (''bf'', ''BF''),
      (''batters_faced'', ''BF''),
      (''era_plus'', ''ERA+''), (''fip'', ''FIP''), (''whip'', ''WHIP''),
      (''hits_per_nine'', ''H9''), (''home_runs_per_nine'', ''HR9''),
      (''bases_on_balls_per_nine'', ''BB9''),
      (''strikeouts_per_nine'', ''SO9''), (''strikeouts_per_base_on_balls'', ''SO/BB'')]"

definition STAT_HEADER_DROP :: "pystr list" where
  "STAT_HEADER_DROP = map str
     [''season'', ''year_id'', ''age'', ''team_id'', ''tm'', ''lg'', ''lg_id'', ''stint'', ''pos'',
      ''pos_summary'']"

section \<open>The parsed document\<close>

text \<open>
  The HTML parser is a library; the model starts from what its queries return. A cell carries
  its \<open>data-stat\<close> attribute (absent or a string) and the text that \<open>get_text(strip=True)\<close>
  returns for it. A footer row is the first \<open>th\<close> that \<open>tr.find\<close> returns and the \<open>td\<close> cells of
  \<open>tr.find_all\<close>. A table has an \<open>id\<close> attribute, the rows of its first \<open>thead\<close> (each the list
  of its \<open>th\<close> and \<open>td\<close> cells) and the rows of its first \<open>tfoot\<close>.
\<close>

record cell =
  data_stat :: "pystr option"
  cell_text :: pystr

record frow =
  row_th :: "cell option"
  row_tds :: "cell list"

record table =
  table_id :: "pystr option"
  thead :: "cell list list option"
  tfoot :: "frow list option"

text \<open>
  A comment node: whether its text contains the opening tag of a table, and what parsing its
  text gives (\<open>None\<close> when the parser raises).
\<close>

record comment =
  has_table_tag :: bool
  comment_tables :: "table list option"

text \<open>The value of \<open>x or ""\<close> for an attribute that may be absent.\<close>

definition or_empty :: "pystr option \<Rightarrow> pystr" where
  "or_empty a = (case a of None \<Rightarrow> [] | Some t \<Rightarrow> t)"

definition iter_all_tables :: "table list \<Rightarrow> comment list \<Rightarrow> table list" where
  "iter_all_tables live cs =
     live @ concat (map (\<lambda>c. if has_table_tag c
                               then (case comment_tables c of None \<Rightarrow> [] | Some ts \<Rightarrow> ts)
                               else []) cs)"

fun header_keys :: "cell list \<Rightarrow> pystr list \<Rightarrow> pystr list" where
  "header_keys [] keys = keys"
| "header_keys (th # ths) keys =
     (let k0 = lower (strip (or_empty (data_stat th)));
          k1 = (if k0 = [] then lower (strip (cell_text th)) else k0);
          k = replace_char 37 (str ''perc'') (replace_char 32 (str ''_'') k1)
      in if k = [] \<or> k \<in> set STAT_HEADER_DROP then header_keys ths keys
         else header_keys ths (keys @ [k]))"

definition build_header_stat_keys :: "table \<Rightarrow> pystr list" where
  "build_header_stat_keys tbl =
     (case thead tbl of
        None \<Rightarrow> []
      | Some rows \<Rightarrow> (if rows = [] then [] else header_keys (last rows) []))"

section \<open>The career-average row\<close>

text \<open>\<open>KEY_MAP.get(k, KEY_MAP.get(k.lower(), k))\<close>\<close>

definition friendly :: "pystr \<Rightarrow> pystr" where
  "friendly k =
     (case dict_get KEY_MAP k of
        Some f \<Rightarrow> f
      | None \<Rightarrow> (case dict_get KEY_MAP (lower k) of Some f \<Rightarrow> f | None \<Rightarrow> k))"

text \<open>The key and the value that the row loops read from a \<open>td\<close>.\<close>

definition cell_key :: "cell \<Rightarrow> pystr" where
  "cell_key td = replace_char 32 (str ''_'') (lower (strip (or_empty (data_stat td))))"

definition cell_val :: "cell \<Rightarrow> pystr" where
  "cell_val td = replace_char 44 [] (cell_text td)"

text \<open>The first loop over the cells: state \<open>(row_raw, used_ds)\<close>.\<close>

fun tag_loop :: "cell list \<Rightarrow> dict \<times> bool \<Rightarrow> dict \<times> bool" where
  "tag_loop [] st = st"
| "tag_loop (td # tds) (row_raw, used_ds) =
     (let k = cell_key td; val = cell_val td
      in if k \<noteq> [] then tag_loop tds (dict_set row_raw (friendly k) val, True)
         else tag_loop tds (row_raw, used_ds))"

text \<open>The second loop, \<open>for i, td in enumerate(cells)\<close>, which breaks at the end of the keys.\<close>

fun pos_loop :: "pystr list \<Rightarrow> nat \<Rightarrow> cell list \<Rightarrow> dict \<Rightarrow> dict" where
  "pos_loop stat_keys i [] row_raw = row_raw"
| "pos_loop stat_keys i (td # tds) row_raw =
     (if i \<ge> length stat_keys then row_raw
      else pos_loop stat_keys (Suc i) tds
             (dict_set row_raw (friendly (stat_keys ! i)) (cell_val td)))"

definition build_row_raw :: "pystr list \<Rightarrow> cell list \<Rightarrow> dict" where
  "build_row_raw stat_keys cells =
     (case tag_loop cells ([], False) of
        (row_raw, used_ds) \<Rightarrow> if \<not> used_ds then pos_loop stat_keys 0 cells row_raw else row_raw)"

definition prune :: "dict \<Rightarrow> dict" where
  "prune row_raw = filter (\<lambda>(k, v). k \<noteq> [] \<and> v \<noteq> []) row_raw"

definition order_row :: "dict \<Rightarrow> dict" where
  "order_row row_raw =
     (let o1 = fold (\<lambda>k ordered. case dict_get row_raw k of
                                    Some v \<Rightarrow> dict_set ordered k v
                                  | None \<Rightarrow> ordered) PREFERRED []
      in fold (\<lambda>(k, v) ordered. if k \<notin> set (dict_keys ordered) then dict_set ordered k v
                                 else ordered) row_raw o1)"

definition row_label :: "frow \<Rightarrow> pystr" where
  "row_label tr = nlabel (case row_th tr of None \<Rightarrow> [] | Some th \<Rightarrow> cell_text th)"

definition label_matches :: "pystr \<Rightarrow> bool" where
  "label_matches label \<longleftrightarrow> contains (str ''162'') label \<and> contains (str ''avg'') label"

text \<open>
  The loop over the footer rows of one table; \<open>candidates\<close> is the list the source appends to.
  The counters and the label list that only feed the debug printing are left out.
\<close>

fun rows_loop :: "pystr \<Rightarrow> pystr list \<Rightarrow> frow list \<Rightarrow> (nat \<times> dict) list \<Rightarrow> (nat \<times> dict) list" where
  "rows_loop tid stat_keys [] candidates = candidates"
| "rows_loop tid stat_keys (tr # trs) candidates =
     (let label = row_label tr
      in if \<not> label_matches label then rows_loop tid stat_keys trs candidates
         else let row_raw = prune (build_row_raw stat_keys (row_tds tr));
                  ordered = order_row row_raw
              in rows_loop tid stat_keys trs
                   (candidates @ [(if tid = str ''pitching_standard'' then 0 else 1, ordered)]))"

definition table_tid :: "table \<Rightarrow> pystr" where
  "table_tid tbl = lower (or_empty (table_id tbl))"

fun tables_loop :: "table list \<Rightarrow> (nat \<times> dict) list \<Rightarrow> (nat \<times> dict) list" where
  "tables_loop [] candidates = candidates"
| "tables_loop (tbl # tbls) candidates =
     (let tid = table_tid tbl
      in if \<not> contains (str ''pitch'') tid then tables_loop tbls candidates
         else let stat_keys = build_header_stat_keys tbl
              in case tfoot tbl of
                   None \<Rightarrow> tables_loop tbls candidates
                 | Some rows \<Rightarrow> tables_loop tbls (rows_loop tid stat_keys rows candidates))"

text \<open>
  \<open>list.sort\<close> is stable, as is \<open>sort_key\<close>; \<open>None\<close> is the absence the function returns when
  there is no candidate.
\<close>

definition find_pitching_162_row :: "table list \<Rightarrow> comment list \<Rightarrow> dict option" where
  "find_pitching_162_row live cs =
     (let candidates = tables_loop (iter_all_tables live cs) []
      in if candidates = [] then None
         else Some (snd (hd (sort_key fst candidates))))"


section \<open>Rounding\<close>

text \<open>
  The pattern \<^verbatim>\<open>^-?\d+(\.\d+)?$\<close>, matched against a stripped string (so that the end of
  the pattern is the end of the string): an optional minus sign (45), digits, and optionally a
  dot (46) with digits after it. The result is the sign, the integer digits and the fraction
  digits.
\<close>

definition is_digit :: "nat \<Rightarrow> bool" where
  "is_digit c \<longleftrightarrow> 48 \<le> c \<and> c \<le> 57"

definition parse_number :: "pystr \<Rightarrow> (bool \<times> pystr \<times> pystr) option" where
  "parse_number s =
     (let neg = (s \<noteq> [] \<and> hd s = 45);
          r = (if neg then tl s else s);
          ip = takeWhile is_digit r;
          rest = dropWhile is_digit r
      in if ip = [] then None
         else if rest = [] then Some (neg, ip, [])
         else if hd rest = 46 \<and> tl rest \<noteq> [] \<and> list_all is_digit (tl rest)
              then Some (neg, ip, tl rest)
         else None)"

definition digits_val :: "pystr \<Rightarrow> nat" where
  "digits_val ds = foldl (\<lambda>a c. 10 * a + (c - 48)) 0 ds"

text \<open>The number that a matched string denotes.\<close>

definition number_value :: "bool \<times> pystr \<times> pystr \<Rightarrow> rat" where
  "number_value p =
     (case p of (neg, ip, fp) \<Rightarrow>
        (if neg then - 1 else 1) * (of_nat (digits_val (ip @ fp)) / 10 ^ length fp))"

text \<open>
  \<open>float(s)\<close> rounds the number to the nearest binary64 value, ties to even, and gives an
  infinity from \<open>2 ^ 1024\<close> on. \<open>ilog2\<close> is the binary exponent of a positive rational, \<open>rhe\<close>
  rounds to the nearest integer with ties to even, and \<open>py_float\<close> returns \<open>None\<close> for the
  infinities, on which \<open>math.ceil\<close> raises.
\<close>

definition ilog2 :: "rat \<Rightarrow> int" where
  "ilog2 q =
     (case quotient_of q of (a, b) \<Rightarrow>
        (let d = bitlen a - bitlen b in if 2 powi d \<le> q then d else d - 1))"

definition rhe :: "rat \<Rightarrow> int" where
  "rhe x =
     (let f = \<lfloor>x\<rfloor>; d = x - of_int f
      in if d < 1 / 2 then f else if 1 / 2 < d then f + 1 else if even f then f else f + 1)"

definition huge :: rat where
  "huge = 2 ^ 1024"

definition py_float :: "rat \<Rightarrow> rat option" where
  "py_float q =
     (if q = 0 then Some 0
      else let a = \<bar>q\<bar>;
               e = max (ilog2 a - 52) (- 1074);
               r = of_int (rhe (a / 2 powi e)) * 2 powi e
           in if huge \<le> r then None else Some (sgn q * r))"

text \<open>\<open>str(n)\<close> for an integer.\<close>

fun nat_digits :: "nat \<Rightarrow> pystr" where
  "nat_digits n = (if n < 10 then [48 + n] else nat_digits (n div 10) @ [48 + n mod 10])"

declare nat_digits.simps [simp del]

definition str_of_int :: "int \<Rightarrow> pystr" where
  "str_of_int i = (if i < 0 then 45 # nat_digits (nat (- i)) else nat_digits (nat i))"

text \<open>
  What both rounding loops do with one non-empty value \<open>v\<close> of a counting column: the value is
  replaced by \<open>str(math.ceil(float(s)))\<close> when the cleaned string \<open>s\<close> matches the pattern, and
  kept when it does not match or when the \<open>try\<close> block raises.
\<close>

definition ceil_value :: "pystr \<Rightarrow> pystr" where
  "ceil_value v =
     (let s = strip (replace_char 44 [] v)
      in case parse_number s of
           None \<Rightarrow> v
         | Some p \<Rightarrow> (case py_float (number_value p) of
                        None \<Rightarrow> v
                      | Some r \<Rightarrow> str_of_int \<lceil>r\<rceil>))"

text \<open>
  \<open>ceil_counting\<close> assigns to keys that the dictionary already has, so every item stays where
  it is and only values change.
\<close>

definition ceil_counting :: "dict \<Rightarrow> dict" where
  "ceil_counting d =
     map (\<lambda>(k, v). if k \<in> set COUNTING \<and> k \<notin> set SKIP_ROUND \<and> v \<noteq> []
                     then (k, ceil_value v) else (k, v)) d"

section \<open>CSV files\<close>

text \<open>
  A file is its header line and its data lines, each a list of fields; quoting is left to the
  \<open>csv\<close> library, which reads back the fields it wrote. \<open>read_csv\<close> is \<open>csv.DictReader\<close>
  on a file whose lines have as many fields as the header.
\<close>

type_synonym csv_file = "pystr list \<times> pystr list list"

definition write_csv :: "pystr list \<Rightarrow> dict list \<Rightarrow> csv_file" where
  "write_csv header rows =
     (header, map (\<lambda>r. map (\<lambda>k. dict_get_default r k []) header) rows)"

definition read_csv :: "csv_file \<Rightarrow> pystr list \<times> dict list" where
  "read_csv f =
     (case f of (header, lines) \<Rightarrow>
        (header, map (\<lambda>line. fold (\<lambda>(k, v) d. dict_set d k v) (zip header line) []) lines))"

definition round_counting_columns_in_csv :: "csv_file \<Rightarrow> csv_file" where
  "round_counting_columns_in_csv f =
     (case read_csv f of (header, rows) \<Rightarrow>
        (let cols = filter (\<lambda>c. c \<in> set COUNTING \<and> c \<notin> set SKIP_ROUND) header;
             rows' = map (\<lambda>r. fold (\<lambda>c r. let v = dict_get_default r c []
                                           in if v = [] then r
                                              else dict_set r c (ceil_value v)) cols r) rows
         in write_csv header rows'))"

section \<open>Bio fields\<close>

text \<open>
  A paragraph of the descriptive region is a sequence of text nodes; those inside a \<open>strong\<close>
  element are grouped. \<open>get_text(sep, strip=True)\<close> strips every text node, drops the empty
  ones and joins the rest with \<open>sep\<close>.
\<close>

datatype seg = Plain pystr | Strong "pystr list"

type_synonym para = "seg list"

fun join :: "pystr \<Rightarrow> pystr list \<Rightarrow> pystr" where
  "join sep [] = []"
| "join sep [x] = x"
| "join sep (x # y # ys) = x @ sep @ join sep (y # ys)"

definition get_text :: "pystr \<Rightarrow> pystr list \<Rightarrow> pystr" where
  "get_text sep nodes = join sep (filter (\<lambda>t. t \<noteq> []) (map strip nodes))"

definition seg_nodes :: "seg \<Rightarrow> pystr list" where
  "seg_nodes g = (case g of Plain t \<Rightarrow> [t] | Strong ts \<Rightarrow> ts)"

definition p_nodes :: "para \<Rightarrow> pystr list" where
  "p_nodes p = concat (map seg_nodes p)"

text \<open>\<open>p.find("strong")\<close>: the text nodes of the first \<open>strong\<close> element, if there is one.\<close>

fun find_strong :: "para \<Rightarrow> pystr list option" where
  "find_strong [] = None"
| "find_strong (Plain t # p) = find_strong p"
| "find_strong (Strong ts # p) = Some ts"

text \<open>
  The substitution of \<^verbatim>\<open>^(Nickname|Nicknames):\s*\<close> by the empty string, ignoring case.
  \<open>ci_eq p c\<close> says that the code point \<open>c\<close> matches the lower-case pattern letter \<open>p\<close>: the
  letter in either case and, for \<open>i\<close>, \<open>k\<close> and \<open>s\<close>, the code points that \<open>re\<close> folds to them
  (U+0130 and U+0131, U+212A, U+017F).
\<close>

definition ci_eq :: "nat \<Rightarrow> nat \<Rightarrow> bool" where
  "ci_eq p c \<longleftrightarrow> c = p \<or> c + 32 = p \<or> (p = 105 \<and> (c = 304 \<or> c = 305)) \<or>
                (p = 107 \<and> c = 8490) \<or> (p = 115 \<and> c = 383)"

fun ci_prefix :: "pystr \<Rightarrow> pystr \<Rightarrow> pystr option" where
  "ci_prefix [] s = Some s"
| "ci_prefix (p # ps) [] = None"
| "ci_prefix (p # ps) (c # cs) = (if ci_eq p c then ci_prefix ps cs else None)"

definition after_colon :: "pystr \<Rightarrow> pystr option" where
  "after_colon s = (case s of [] \<Rightarrow> None | c # cs \<Rightarrow> if c = 58 then Some cs else None)"

definition strip_label :: "pystr \<Rightarrow> pystr" where
  "strip_label raw =
     (case ci_prefix (str ''nickname'') raw of
        None \<Rightarrow> raw
      | Some r1 \<Rightarrow>
          (case after_colon r1 of
             Some r2 \<Rightarrow> dropWhile is_space r2
           | None \<Rightarrow>
               (case ci_prefix (str ''s'') r1 of
                  None \<Rightarrow> raw
                | Some r3 \<Rightarrow>
                    (case after_colon r3 of
                       Some r4 \<Rightarrow> dropWhile is_space r4
                     | None \<Rightarrow> raw))))"

text \<open>\<open>raw.split(sep)[0]\<close> for a separator that is not empty: the text before its first occurrence.\<close>

fun before :: "pystr \<Rightarrow> pystr \<Rightarrow> pystr" where
  "before sep [] = []"
| "before sep (c # cs) = (if starts_with sep (c # cs) then [] else c # before sep cs)"

definition SEPARATORS :: "pystr list" where
  "SEPARATORS = [[8226], str '';'', str '','', str '' / '', str '' | '']"

fun cut_loop :: "pystr list \<Rightarrow> pystr \<Rightarrow> pystr" where
  "cut_loop [] raw = raw"
| "cut_loop (sep # seps) raw = (if contains sep raw then before sep raw else cut_loop seps raw)"

fun parse_nickname :: "para list \<Rightarrow> pystr" where
  "parse_nickname [] = str ''N/A''"
| "parse_nickname (p # ps) =
     (case find_strong p of
        None \<Rightarrow> parse_nickname ps
      | Some strong \<Rightarrow>
          (if get_text [] strong \<in> {str ''Nickname:'', str ''Nicknames:''}
           then (let raw = cut_loop SEPARATORS (strip_label (get_text (str '' '') (p_nodes p)))
                 in if strip raw \<noteq> [] then strip raw else str ''N/A'')
           else parse_nickname ps))"

text \<open>
  The descriptive region of a page. The two extractors that search the text with regular
  expressions are not modelled: their results are fields of the region.
\<close>

record meta_region =
  paragraphs :: "para list"
  height_weight_bats_throws :: "pystr \<times> int option \<times> pystr \<times> pystr"
  high_school :: "pystr \<times> pystr \<times> pystr"

text \<open>
  A fetched page: the text of the heading that \<open>get_display_name\<close> finds, the element with
  id \<open>meta\<close>, the tables of the live tree and the comment nodes.
\<close>

record page =
  h1_text :: "pystr option"
  meta :: "meta_region option"
  live_tables :: "table list"
  comments :: "comment list"

definition get_display_name :: "page \<Rightarrow> pystr" where
  "get_display_name html = or_empty (h1_text html)"

definition SUFFIXES :: "pystr list" where
  "SUFFIXES = map str [''Jr.'', ''Jr'', ''Sr.'', ''Sr'', ''II'', ''III'', ''IV'', ''V'']"

text \<open>\<open>s.split()\<close>: the maximal runs of characters that are not whitespace.\<close>

definition split_ws :: "pystr \<Rightarrow> pystr list" where
  "split_ws s =
     filter (\<lambda>w. w \<noteq> [])
       (foldr (\<lambda>c acc. if is_space c then [] # acc
                        else (case acc of [] \<Rightarrow> [[c]] | w # ws \<Rightarrow> (c # w) # ws)) s [[]])"

definition split_first_last_with_suffix :: "pystr \<Rightarrow> pystr \<times> pystr" where
  "split_first_last_with_suffix full_name =
     (let parts = split_ws (strip full_name)
      in if parts = [] then ([], [])
         else if length parts = 1 then (hd parts, [])
         else if last parts \<in> set SUFFIXES \<and> length parts \<ge> 3
              then (join (str '' '') (butlast (butlast parts)),
                    last (butlast parts) @ str '' '' @ last parts)
         else (join (str '' '') (butlast parts), last parts))"

definition parse_meta_bio :: "page \<Rightarrow> dict" where
  "parse_meta_bio html =
     (case meta html of
        None \<Rightarrow> []
      | Some m \<Rightarrow>
          (case height_weight_bats_throws m of (height, weight_lb, bats, throws) \<Rightarrow>
           case high_school m of (hs_city, hs_state, hs_country) \<Rightarrow>
             (let nickname = parse_nickname (paragraphs m);
                  out0 = [(str ''Nickname'', nickname)];
                  out1 = (if height \<noteq> [] then dict_set out0 (str ''Height'') height else out0);
                  out2 = (case weight_lb of None \<Rightarrow> out1
                          | Some w \<Rightarrow> dict_set out1 (str ''Weight_lb'') (str_of_int w));
                  out3 = (if bats \<noteq> [] then dict_set out2 (str ''Bats'') bats else out2);
                  out4 = (if throws \<noteq> [] then dict_set out3 (str ''Throws'') throws else out3);
                  out5 = (if hs_city \<noteq> [] then dict_set out4 (str ''HS_City'') hs_city else out4);
                  out6 = (if hs_state \<noteq> [] then dict_set out5 (str ''HS_State'') hs_state else out5)
              in if hs_country \<noteq> [] then dict_set out6 (str ''HS_Country'') hs_country else out6)))"

section \<open>The run\<close>

definition URLS :: "pystr list" where
  "URLS = map str
     [''https://www.baseball-reference.com/players/a/adamsba01.shtml'',
      ''https://www.baseball-reference.com/players/a/alcansa01.shtml'',
      ''https://www.baseball-reference.com/players/a/alexape01.shtml'']"

definition BASE_HEADER :: "pystr list" where
  "BASE_HEADER = map str
     [''FirstName'', ''LastName'', ''Nickname'',
      ''Height'', ''Weight_lb'', ''Bats'', ''Throws'',
      ''HS_City'', ''HS_State'', ''HS_Country'',
      ''BaseballReferenceURL'', ''error'']"

definition new_rec :: "pystr \<Rightarrow> dict" where
  "new_rec url =
     [(str ''FirstName'', []), (str ''LastName'', []), (str ''Nickname'', str ''N/A''),
      (str ''Height'', []), (str ''Weight_lb'', []), (str ''Bats'', []), (str ''Throws'', []),
      (str ''HS_City'', []), (str ''HS_State'', []), (str ''HS_Country'', []),
      (str ''BaseballReferenceURL'', url), (str ''error'', [])]"

text \<open>
  The body of the loop over the URLs, on the state \<open>(out_rows, all_fields)\<close>. The network is
  the function \<open>fetch\<close>; \<open>None\<close> stands for every result of \<open>fetch_html\<close> that the test
  \<open>not html\<close> accepts. The pause and the debug copy of the page are left out. The set
  \<open>all_fields\<close> is the list of the keys added to it.
\<close>

definition process_url ::
  "(pystr \<Rightarrow> page option) \<Rightarrow> pystr \<Rightarrow> dict list \<times> pystr list \<Rightarrow> dict list \<times> pystr list" where
  "process_url fetch url st =
     (case st of (out_rows, all_fields) \<Rightarrow>
        (case fetch url of
           None \<Rightarrow> (out_rows @ [dict_set (new_rec url) (str ''error'') (str ''fetch_failed'')],
                     all_fields)
         | Some html \<Rightarrow>
             (case split_first_last_with_suffix (get_display_name html) of (first_name, last_name) \<Rightarrow>
                (let rec1 = dict_set (dict_set (new_rec url) (str ''FirstName'') first_name)
                              (str ''LastName'') last_name;
                     rec2 = dict_update rec1 (parse_meta_bio html)
                 in case find_pitching_162_row (live_tables html) (comments html) of
                      None \<Rightarrow>
                        (out_rows @ [dict_set rec2 (str ''error'') (str ''162_row_not_found'')],
                         all_fields)
                    | Some row \<Rightarrow>
                        (if row = []
                         then (out_rows @
                                 [dict_set rec2 (str ''error'') (str ''162_row_not_found'')],
                               all_fields)
                         else (out_rows @ [dict_update rec2 (ceil_counting row)],
                               all_fields @ dict_keys (ceil_counting row)))))))"

definition build_header :: "pystr list \<Rightarrow> pystr list" where
  "build_header all_fields =
     (let header = fold (\<lambda>c header. if c \<in> set all_fields \<and> c \<notin> set header
                                     then header @ [c] else header) PREFERRED BASE_HEADER;
          extras = sort (remdups (filter (\<lambda>c. c \<notin> set header) all_fields))
      in header @ extras)"

text \<open>The run over a list of URLs returns the raw file and the rounded file.\<close>

definition run :: "pystr list \<Rightarrow> (pystr \<Rightarrow> page option) \<Rightarrow> csv_file \<times> csv_file" where
  "run urls fetch =
     (case fold (process_url fetch) urls ([], []) of (out_rows, all_fields) \<Rightarrow>
        (let header = build_header all_fields;
             raw_csv = write_csv header out_rows;
             rounded_csv = round_counting_columns_in_csv raw_csv
         in (raw_csv, rounded_csv)))"

definition main :: "(pystr \<Rightarrow> page option) \<Rightarrow> csv_file \<times> csv_file" where
  "main fetch = run URLS fetch"

section \<open>Vocabulary of the proofs\<close>


definition ends_ok :: "pystr \<Rightarrow> bool" where
  "ends_ok s \<longleftrightarrow> (s = [] \<or> (\<not> is_space (hd s) \<and> \<not> is_space (last s)))"


text \<open>What the rounding does to the value \<open>v\<close> of the column \<open>c\<close>.\<close>

definition col_round :: "pystr \<Rightarrow> pystr \<Rightarrow> pystr" where
  "col_round c v = (if c \<in> set COUNTING \<and> c \<notin> set SKIP_ROUND \<and> v \<noteq> [] then ceil_value v else v)"


definition untag :: "cell \<Rightarrow> cell" where
  "untag td = td\<lparr>data_stat := None\<rparr>"

text \<open>
  The paragraphs that the nickname extractor accepts, and what it returns for one of them.
\<close>

definition is_nick_para :: "para \<Rightarrow> bool" where
  "is_nick_para p =
     (case find_strong p of
        None \<Rightarrow> False
      | Some strong \<Rightarrow> get_text [] strong \<in> {str ''Nickname:'', str ''Nicknames:''})"

definition nick_of :: "para \<Rightarrow> pystr" where
  "nick_of p =
     (let raw = cut_loop SEPARATORS (strip_label (get_text (str '' '') (p_nodes p)))
      in if strip raw \<noteq> [] then strip raw else str ''N/A'')"

text \<open>
  The record and the statistic field names that one URL contributes to the run, and an example:
  a page whose standard pitching table has a \<open>162 Game Avg\<close> row with \<open>12.4\<close> wins, served
  for the first URL while the other fetches fail.
\<close>

definition make_rec :: "(pystr \<Rightarrow> page option) \<Rightarrow> pystr \<Rightarrow> dict" where
  "make_rec fetch url = last (fst (process_url fetch url ([], [])))"

definition fields_of :: "(pystr \<Rightarrow> page option) \<Rightarrow> pystr \<Rightarrow> pystr list" where
  "fields_of fetch url = snd (process_url fetch url ([], []))"

definition example_page :: page where
  "example_page =
     \<lparr>h1_text = Some (str ''Babe Adams''), meta = None,
      live_tables =
        [\<lparr>table_id = Some (str ''pitching_standard''), thead = None,
          tfoot = Some [\<lparr>row_th = Some \<lparr>data_stat = None, cell_text = str ''162 Game Avg''\<rparr>,
                         row_tds = [\<lparr>data_stat = Some (str ''w''), cell_text = str ''12.4''\<rparr>]\<rparr>]\<rparr>],
      comments = []\<rparr>"

definition example_fetch :: "pystr \<Rightarrow> page option" where
  "example_fetch url = (if url = hd URLS then Some example_page else None)"

text \<open>The body of the loop over the columns in the CSV rounding, and its effect on a field.\<close>

definition round_step :: "pystr \<Rightarrow> dict \<Rightarrow> dict" where
  "round_step c r = (let v = dict_get_default r c [] in if v = [] then r else dict_set r c (ceil_value v))"

definition cr :: "pystr \<Rightarrow> pystr" where
  "cr v = (if v = [] then [] else ceil_value v)"

definition fexp :: "rat \<Rightarrow> int" where
  "fexp a = max (ilog2 a - 52) (- 1074)"

definition b64 :: "rat \<Rightarrow> bool" where
  "b64 x \<longleftrightarrow> (\<exists>e k. - 1074 \<le> e \<and> x = of_int k * 2 powi e \<and> \<bar>x\<bar> \<le> 2 powi (e + 53)) \<and> \<bar>x\<bar> < huge"

section \<open>Label normalisation is idempotent\<close>














lemma strip_ends_ok: "ends_ok s \<Longrightarrow> strip s = s"
proof (cases "s = []")
  case True then show ?thesis by (simp add: strip_def lstrip_def rstrip_def)
next
  case False
  assume "ends_ok s"
  with False have h: "\<not> is_space (hd s)" and l: "\<not> is_space (last s)" by (auto simp: ends_ok_def)
  from h have 1: "lstrip s = s" by (simp add: lstrip_def dropWhile_eq_self_iff)
  from l False have "dropWhile is_space (rev s) = rev s"
    by (simp add: dropWhile_eq_self_iff hd_rev)
  then have "rstrip s = s" by (simp add: rstrip_def)
  with 1 show ?thesis by (simp add: strip_def)
qed















section \<open>Binary64 rounding\<close>

lemma quot: "0 < q \<Longrightarrow> quotient_of q = (a, b) \<Longrightarrow> 0 < a \<and> 0 < b \<and> q = of_int a / of_int b"
  by (metis Fract_of_int_quotient quotient_of_denom_pos quotient_of_div zero_less_Fract_iff)


lemma ilog2_bounds:
  assumes "0 < q"
  shows "2 powi (ilog2 q) \<le> q" and "q < 2 powi (ilog2 q + 1)"
proof -
  obtain a b where ab: "quotient_of q = (a, b)" by (cases "quotient_of q")
  from quot[OF assms ab] have a: "0 < a" and b: "0 < b" and q: "q = of_int a / of_int b" by auto
  define la where "la = bitlen a"
  define lb where "lb = bitlen b"
  from a have la1: "1 \<le> la" by (auto simp: la_def bitlen_alt_def)
  from b have lb1: "1 \<le> lb" by (auto simp: lb_def bitlen_alt_def)
  from bitlen_bounds[OF a] have "of_int (2 ^ nat (la - 1)) \<le> (of_int a :: rat)" and "(of_int a :: rat) < of_int (2 ^ nat la)"
    unfolding la_def by (simp_all only: of_int_le_iff of_int_less_iff)
  then have a1: "2 powi (la - 1) \<le> (of_int a :: rat)" and a2: "(of_int a :: rat) < 2 powi la"
    using la1 by (simp_all add: power_int_def)
  from bitlen_bounds[OF b] have "of_int (2 ^ nat (lb - 1)) \<le> (of_int b :: rat)" and "(of_int b :: rat) < of_int (2 ^ nat lb)"
    unfolding lb_def by (simp_all only: of_int_le_iff of_int_less_iff)
  then have b1: "2 powi (lb - 1) \<le> (of_int b :: rat)" and b2: "(of_int b :: rat) < 2 powi lb"
    using lb1 by (simp_all add: power_int_def)
  have bpos: "(0::rat) < of_int b" using b by simp
  have lo: "2 powi (la - lb - 1) \<le> q"
  proof -
    have "2 powi (la - lb - 1) * of_int b \<le> 2 powi (la - lb - 1) * (2::rat) powi lb"
      using b2 by (intro mult_left_mono) auto
    also have "\<dots> = 2 powi (la - 1)" by (simp add: power_int_add [symmetric])
    also have "\<dots> \<le> of_int a" by (rule a1)
    finally show ?thesis using bpos by (simp add: q pos_le_divide_eq)
  qed
  have hi: "q < 2 powi (la - lb + 1)"
  proof -
    have "of_int a < (2::rat) powi la" by (rule a2)
    also have "\<dots> = 2 powi (la - lb + 1) * 2 powi (lb - 1)" by (simp add: power_int_add [symmetric])
    also have "\<dots> \<le> 2 powi (la - lb + 1) * of_int b"
      using b1 by (intro mult_left_mono) auto
    finally show ?thesis using bpos by (simp add: q pos_divide_less_eq)
  qed
  have il: "ilog2 q = (if 2 powi (la - lb) \<le> q then la - lb else la - lb - 1)"
    by (simp add: ilog2_def ab la_def lb_def Let_def)
  show "2 powi (ilog2 q) \<le> q" using lo by (simp add: il)
  show "q < 2 powi (ilog2 q + 1)" using hi by (auto simp add: il not_le)
qed

lemma p2_less_D: "(2::rat) powi m < 2 powi n \<Longrightarrow> m < n"
proof (rule ccontr)
  assume a: "(2::rat) powi m < 2 powi n" and "\<not> m < n"
  then have "n \<le> m" by simp
  then have "(2::rat) powi n \<le> 2 powi m" by (rule power_int_increasing) simp
  with a show False by simp
qed

lemma ilog2_unique:
  assumes "0 < q" "2 powi d \<le> q" "q < 2 powi (d + 1)"
  shows "ilog2 q = d"
proof -
  have "(2::rat) powi (ilog2 q) < 2 powi (d + 1)"
    using ilog2_bounds(1)[OF assms(1)] assms(3) by simp
  then have 1: "ilog2 q < d + 1" by (rule p2_less_D)
  have "(2::rat) powi d < 2 powi (ilog2 q + 1)"
    using ilog2_bounds(2)[OF assms(1)] assms(2) by simp
  then have "d < ilog2 q + 1" by (rule p2_less_D)
  with 1 show ?thesis by simp
qed

lemma rhe_of_int: "rhe (of_int n) = n" by (simp add: rhe_def)

lemma rhe_err: "\<bar>of_int (rhe x) - x\<bar> \<le> 1 / 2"
proof -
  define f where "f = \<lfloor>x\<rfloor>"
  have b: "of_int f \<le> x" "x < of_int f + 1" unfolding f_def by linarith+
  consider "x - of_int f < 1 / 2" | "1 / 2 < x - of_int f" | "x - of_int f = 1 / 2" by linarith
  then show ?thesis
  proof cases
    case 1
    then have "rhe x = f" by (simp add: rhe_def f_def Let_def)
    with 1 b show ?thesis by simp
  next
    case 2
    then have "rhe x = f + 1" by (simp add: rhe_def f_def Let_def)
    with 2 b show ?thesis by simp
  next
    case 3
    then have "rhe x = f \<or> rhe x = f + 1" by (simp add: rhe_def f_def Let_def)
    with 3 b show ?thesis by auto
  qed
qed

lemma p2pos: "(0::rat) < 2 powi e" by simp

lemma p2_split: "(2::rat) powi (a + b) = 2 powi a * 2 powi b"
  by (simp add: power_int_add)

lemma p2_mono: "a \<le> b \<Longrightarrow> (2::rat) powi a \<le> 2 powi b"
  by (rule power_int_increasing) simp_all

lemma p2_nat: "0 \<le> e \<Longrightarrow> (2::rat) powi e = of_int (2 ^ nat e)"
  by (simp add: power_int_def)

lemma py_float_form:
  assumes "q \<noteq> 0"
  shows "py_float q =
    (if huge \<le> of_int (rhe (\<bar>q\<bar> / 2 powi fexp \<bar>q\<bar>)) * 2 powi fexp \<bar>q\<bar> then None
     else Some (sgn q * (of_int (rhe (\<bar>q\<bar> / 2 powi fexp \<bar>q\<bar>)) * 2 powi fexp \<bar>q\<bar>)))"
  using assms by (simp add: py_float_def Let_def fexp_def)

lemma fexp_ge: "- 1074 \<le> fexp a" "ilog2 a - 52 \<le> fexp a"
  by (simp_all add: fexp_def)

lemma scaled_lt:
  assumes "0 < a"
  shows "a / 2 powi fexp a < 2 ^ 53"
proof -
  have "a < 2 powi (ilog2 a + 1)" by (rule ilog2_bounds(2)[OF assms])
  also have "\<dots> \<le> 2 powi (fexp a + 53)" using fexp_ge(2)[of a] by (intro p2_mono) simp
  also have "\<dots> = 2 powi fexp a * 2 ^ 53" by (simp add: p2_split)
  finally show ?thesis by (simp add: pos_divide_less_eq mult.commute)
qed

lemma rhe_nonneg: "0 \<le> x \<Longrightarrow> 0 \<le> rhe x"
proof -
  assume "0 \<le> x"
  then have "0 \<le> \<lfloor>x\<rfloor>" by simp
  then show ?thesis by (auto simp: rhe_def Let_def)
qed

lemma rhe_le: 
  assumes "x \<le> of_int n" shows "rhe x \<le> n"
proof -
  have "of_int (rhe x) - x \<le> 1 / 2" using rhe_err[of x] by linarith
  with assms have "(of_int (rhe x) :: rat) < of_int n + 1" by simp
  then have "(of_int (rhe x) :: rat) < of_int (n + 1)" by simp
  then have "rhe x < n + 1" by (simp only: of_int_less_iff)
  then show ?thesis by simp
qed

lemma huge_pos: "0 < huge" by (simp add: huge_def)

lemma b64_neg: "b64 x \<Longrightarrow> b64 (- x)"
proof -
  assume "b64 x"
  then obtain e k where "- 1074 \<le> e" "x = of_int k * 2 powi e" "\<bar>x\<bar> \<le> 2 powi (e + 53)" and l: "\<bar>x\<bar> < huge"
    by (auto simp: b64_def)
  then have "- 1074 \<le> e \<and> - x = of_int (- k) * 2 powi e \<and> \<bar>- x\<bar> \<le> 2 powi (e + 53)" by simp
  then show ?thesis using l unfolding b64_def by (metis abs_minus_cancel)
qed

lemma py_float_b64:
  assumes "py_float q = Some r"
  shows "b64 r"
proof (cases "q = 0")
  case True
  with assms have "r = 0" by (simp add: py_float_def)
  have "(- 1074::int) \<le> 0 \<and> (0::rat) = of_int 0 * 2 powi 0 \<and> \<bar>0::rat\<bar> \<le> 2 powi (0 + 53)" by simp
  then show ?thesis unfolding b64_def \<open>r = 0\<close> by (metis abs_zero huge_pos)
next
  case False
  define a where "a = \<bar>q\<bar>"
  define e where "e = fexp a"
  define m where "m = rhe (a / 2 powi e)"
  from False have apos: "0 < a" by (simp add: a_def)
  from assms py_float_form[OF False]
  have nov: "\<not> huge \<le> of_int m * 2 powi e" and r: "r = sgn q * (of_int m * 2 powi e)"
    by (auto simp: a_def e_def m_def split: if_splits)
  have m0: "0 \<le> m" unfolding m_def using apos by (intro rhe_nonneg) simp
  have "a / 2 powi e \<le> of_int (2 ^ 53)" using scaled_lt[OF apos] by (simp add: e_def)
  then have m1: "m \<le> 2 ^ 53" unfolding m_def by (rule rhe_le)
  define x where "x = of_int m * (2::rat) powi e"
  have x0: "0 \<le> x" using m0 by (simp add: x_def)
  have "of_int m \<le> (of_int (2 ^ 53) :: rat)" using m1 by (simp only: of_int_le_iff)
  then have "x \<le> 2 ^ 53 * 2 powi e" unfolding x_def by (intro mult_right_mono) simp_all
  then have x1: "\<bar>x\<bar> \<le> 2 powi (e + 53)" using x0 by (simp add: p2_split mult.commute)
  have x2: "\<bar>x\<bar> < huge" using nov x0 by (simp add: x_def)
  have "- 1074 \<le> e \<and> x = of_int m * 2 powi e \<and> \<bar>x\<bar> \<le> 2 powi (e + 53)"
    using fexp_ge(1)[of a] x1 by (simp add: e_def x_def)
  then have bx: "b64 x" using x2 unfolding b64_def by blast
  have "r = x \<or> r = - x" using False by (auto simp: r x_def sgn_if)
  then show ?thesis using bx b64_neg by auto
qed

lemma b64_scaled_int:
  assumes "b64 x" "x \<noteq> 0"
  shows "\<exists>j. \<bar>x\<bar> / 2 powi fexp \<bar>x\<bar> = of_int j"
proof -
  define a where "a = \<bar>x\<bar>"
  from assms obtain e0 k where e0: "- 1074 \<le> e0" and x: "x = of_int k * 2 powi e0"
    and le: "a \<le> 2 powi (e0 + 53)" by (auto simp: b64_def a_def)
  have a: "a = of_int \<bar>k\<bar> * 2 powi e0" by (simp add: a_def x abs_mult)
  have apos: "0 < a" using assms(2) by (simp add: a_def)
  define e where "e = fexp a"
  show ?thesis
  proof (cases "e \<le> e0")
    case True
    have "a / 2 powi e = of_int \<bar>k\<bar> * (2 powi e0 / 2 powi e)" by (simp add: a)
    also have "2 powi e0 / 2 powi e = (2::rat) powi (e0 - e)" by (rule power_int_diff[symmetric]) simp
    also have "\<dots> = of_int (2 ^ nat (e0 - e))" using True by (intro p2_nat) simp
    finally have "a / 2 powi e = of_int (\<bar>k\<bar> * 2 ^ nat (e0 - e))" by simp
    then show ?thesis unfolding a_def e_def by blast
  next
    case False
    with e0 have "e \<noteq> - 1074" by simp
    then have e1: "e = ilog2 a - 52" by (simp add: e_def fexp_def max_def split: if_splits)
    with False have "e0 + 53 \<le> ilog2 a" by simp
    then have "(2::rat) powi (e0 + 53) \<le> 2 powi (ilog2 a)" by (rule p2_mono)
    also have "\<dots> \<le> a" by (rule ilog2_bounds(1)[OF apos])
    finally have "a = 2 powi (e0 + 53)" using le by simp
    moreover have "(2::rat) powi (e0 + 53) < 2 powi (e0 + 53 + 1)"
      by (rule power_int_strict_increasing) simp_all
    ultimately have "ilog2 a = e0 + 53" by (intro ilog2_unique) simp_all
    with e1 have "e = e0 + 1" by simp
    have "a / 2 powi e = 2 powi (e0 + 53) / 2 powi (e0 + 1)"
      by (simp add: \<open>a = 2 powi (e0 + 53)\<close> \<open>e = e0 + 1\<close>)
    also have "\<dots> = (2::rat) powi (e0 + 53 - (e0 + 1))" by (rule power_int_diff[symmetric]) simp
    also have "\<dots> = of_int (2 ^ 52)" by (simp add: power_int_def)
    finally show ?thesis unfolding a_def e_def by blast
  qed
qed

lemma div_eqD: "(a::rat) / b = c \<Longrightarrow> b \<noteq> 0 \<Longrightarrow> a = c * b"
  by auto

lemma py_float_exact:
  assumes "b64 x"
  shows "py_float x = Some x"
proof (cases "x = 0")
  case True then show ?thesis by (simp add: py_float_def)
next
  case False
  from b64_scaled_int[OF assms False] obtain j where j: "\<bar>x\<bar> / 2 powi fexp \<bar>x\<bar> = of_int j" by blast
  then have rj: "rhe (\<bar>x\<bar> / 2 powi fexp \<bar>x\<bar>) = j" by (simp add: rhe_of_int)
  have nz: "(2::rat) powi fexp \<bar>x\<bar> \<noteq> 0" by simp
  from j nz have "\<bar>x\<bar> = of_int j * 2 powi fexp \<bar>x\<bar>"
    by (rule div_eqD)
  then have "of_int (rhe (\<bar>x\<bar> / 2 powi fexp \<bar>x\<bar>)) * 2 powi fexp \<bar>x\<bar> = \<bar>x\<bar>"
    by (simp only: rj)
  moreover have "\<bar>x\<bar> < huge" using assms by (simp add: b64_def)
  moreover have "sgn x * \<bar>x\<bar> = x" by (simp add: sgn_if)
  ultimately show ?thesis by (simp add: py_float_form[OF False])
qed

lemma b64_of_int:
  assumes "\<bar>n\<bar> \<le> 2 ^ 53"
  shows "b64 (of_int n)"
proof -
  have "(of_int \<bar>n\<bar> :: rat) \<le> of_int (2 ^ 53)" using assms by (simp only: of_int_le_iff)
  then have 1: "\<bar>of_int n :: rat\<bar> \<le> 2 ^ 53" by simp
  have "(2::rat) ^ 53 < 2 ^ 1024" by (rule power_strict_increasing) simp_all
  with 1 have 2: "\<bar>of_int n :: rat\<bar> < huge" by (simp add: huge_def)
  have "(- 1074 :: int) \<le> 0 \<and> (of_int n :: rat) = of_int n * 2 powi 0 \<and> \<bar>of_int n :: rat\<bar> \<le> 2 powi (0 + 53)"
    using 1 by simp
  then show ?thesis using 2 unfolding b64_def by blast
qed

lemma b64_ceiling:
  assumes "b64 x"
  shows "b64 (of_int \<lceil>x\<rceil>)"
proof -
  from assms obtain e k where e: "- 1074 \<le> e" and x: "x = of_int k * 2 powi e"
    and le: "\<bar>x\<bar> \<le> 2 powi (e + 53)" and hu: "\<bar>x\<bar> < huge" by (auto simp: b64_def)
  show ?thesis
  proof (cases "0 \<le> e")
    case True
    then have xi: "x = of_int (k * 2 ^ nat e)" by (simp add: x p2_nat)
    have "\<lceil>(of_int (k * 2 ^ nat e) :: rat)\<rceil> = k * 2 ^ nat e" by (rule ceiling_of_int)
    then have "of_int \<lceil>x\<rceil> = x" by (simp only: xi)
    with assms show ?thesis by (simp only:)
  next
    case False
    then have "e + 53 \<le> 53" by simp
    then have "(2::rat) powi (e + 53) \<le> 2 powi 53" by (rule p2_mono)
    with le have "\<bar>x\<bar> \<le> of_int (2 ^ 53)" by simp
    then have "x \<le> of_int (2 ^ 53)" "of_int (- (2 ^ 53)) \<le> x" by (simp_all add: abs_le_iff) 
    then have "\<lceil>x\<rceil> \<le> 2 ^ 53" "- (2 ^ 53) \<le> \<lceil>x\<rceil>"
      by linarith+
    then have "\<bar>\<lceil>x\<rceil>\<bar> \<le> 2 ^ 53" by linarith
    then show ?thesis by (rule b64_of_int)
  qed
qed

lemma py_float_ceiling_fix:
  assumes "py_float q = Some r"
  shows "py_float (of_int \<lceil>r\<rceil>) = Some (of_int \<lceil>r\<rceil>)"
  by (intro py_float_exact b64_ceiling py_float_b64[OF assms])

lemma py_float_err:
  assumes apos: "0 < a" and lo: "2 powi (- 1022) \<le> a"
  shows "\<bar>of_int (rhe (a / 2 powi fexp a)) * 2 powi fexp a - a\<bar> \<le> a / 2 ^ 53"
proof -
  define e where "e = fexp a"
  define m where "m = rhe (a / 2 powi e)"
  have "(2::rat) powi (- 1022) < 2 powi (ilog2 a + 1)"
    using lo ilog2_bounds(2)[OF apos] by simp
  then have "- 1022 < ilog2 a + 1" by (rule p2_less_D)
  then have e: "e = ilog2 a - 52" by (simp add: e_def fexp_def)
  have "(2::rat) powi (e + 52) \<le> a" using ilog2_bounds(1)[OF apos] by (simp add: e)
  then have ea: "2 powi e * 2 ^ 52 \<le> a" by (simp add: p2_split)
  have "\<bar>of_int m - a / 2 powi e\<bar> \<le> 1 / 2" unfolding m_def by (rule rhe_err)
  then have "\<bar>of_int m - a / 2 powi e\<bar> * 2 powi e \<le> 1 / 2 * 2 powi e"
    by (rule mult_right_mono) simp
  moreover have "\<bar>of_int m - a / 2 powi e\<bar> * 2 powi e = \<bar>of_int m * 2 powi e - a\<bar>"
  proof -
    have "\<bar>of_int m - a / 2 powi e\<bar> * 2 powi e = \<bar>(of_int m - a / 2 powi e) * 2 powi e\<bar>"
      by (simp add: abs_mult)
    also have "(of_int m - a / 2 powi e) * 2 powi e = of_int m * 2 powi e - a"
      by (simp add: left_diff_distrib)
    finally show ?thesis .
  qed
  ultimately have 1: "\<bar>of_int m * 2 powi e - a\<bar> \<le> 2 powi e / 2" by simp
  have "(2::rat) powi e / 2 = (2 powi e * 2 ^ 52) / 2 ^ 53" by simp
  also have "\<dots> \<le> a / 2 ^ 53" using ea by (rule divide_right_mono) simp
  finally show ?thesis using 1 unfolding m_def e_def by linarith
qed

lemma int_gap:
  fixes q :: rat
  assumes q: "q * 10 ^ k = of_int n" and lt: "q < of_int c"
  shows "q + 1 / 10 ^ k \<le> of_int c"
proof -
  have "q * 10 ^ k < of_int c * 10 ^ k" using lt by simp
  then have "(of_int n :: rat) < of_int (c * 10 ^ k)" by (simp add: q)
  then have "n < c * 10 ^ k" by (simp only: of_int_less_iff)
  then have "n + 1 \<le> c * 10 ^ k" by simp
  then have "(of_int (n + 1) :: rat) \<le> of_int (c * 10 ^ k)" by (simp only: of_int_le_iff)
  then have "q * 10 ^ k + 1 \<le> of_int c * 10 ^ k" by (simp add: q)
  then have "(q * 10 ^ k + 1) / 10 ^ k \<le> of_int c" by (simp add: pos_divide_le_eq)
  then show ?thesis by (simp add: add_divide_distrib)
qed

lemma int_gap':
  fixes q :: rat
  assumes q: "q * 10 ^ k = of_int n" and lt: "of_int c < q"
  shows "of_int c + 1 / 10 ^ k \<le> q"
proof -
  have "(- q) * 10 ^ k = of_int (- n)" using q by simp
  moreover have "- q < of_int (- c)" using lt by simp
  ultimately have "- q + 1 / 10 ^ k \<le> of_int (- c)" by (rule int_gap)
  then show ?thesis by simp
qed

lemma py_float_short:
  fixes q :: rat
  assumes q: "q * 10 ^ k = of_int n" and n: "\<bar>n\<bar> < 10 ^ 15" and k: "k \<le> 15"
  shows "\<exists>r. py_float q = Some r \<and> \<lceil>r\<rceil> = \<lceil>q\<rceil>"
proof (cases "q = of_int \<lceil>q\<rceil>")
  case True
  have "\<bar>q\<bar> \<le> \<bar>q\<bar> * 10 ^ k" by (simp add: mult_le_cancel_left1)
  also have "\<dots> = \<bar>of_int n\<bar>" using arg_cong[OF q, of abs] by (simp add: abs_mult)
  also have "\<dots> = of_int \<bar>n\<bar>" by simp
  also have "\<dots> \<le> of_int (2 ^ 53)" using n by (simp only: of_int_le_iff) simp
  finally have "\<bar>of_int \<lceil>q\<rceil> :: rat\<bar> \<le> of_int (2 ^ 53)" using True by simp
  then have "\<bar>\<lceil>q\<rceil>\<bar> \<le> 2 ^ 53" by linarith
  then have "b64 (of_int \<lceil>q\<rceil>)" by (rule b64_of_int)
  then have "py_float (of_int \<lceil>q\<rceil>) = Some (of_int \<lceil>q\<rceil>)" by (rule py_float_exact)
  with True show ?thesis by simp
next
  case False
  then have q0: "q \<noteq> 0" by auto
  define a where "a = \<bar>q\<bar>"
  define u :: rat where "u = 1 / 10 ^ k"
  define x :: rat where "x = of_int (rhe (a / 2 powi fexp a)) * 2 powi fexp a"
  have apos: "0 < a" using q0 by (simp add: a_def)
  have upos: "0 < u" by (simp add: u_def)
  have an: "a * 10 ^ k = of_int \<bar>n\<bar>" using arg_cong[OF q, of abs] by (simp add: a_def abs_mult)
  have "n \<noteq> 0" using q q0 by auto
  then have "1 \<le> \<bar>n\<bar>" by simp
  then have "(of_int 1 :: rat) \<le> of_int \<bar>n\<bar>" by (simp only: of_int_le_iff)
  then have "1 \<le> a * 10 ^ k" by (simp add: an)
  then have ua: "u \<le> a" by (simp add: u_def pos_divide_le_eq)
  have "(10::rat) ^ k \<le> 10 ^ 15" using k by (intro power_increasing) simp_all
  also have "\<dots> \<le> 2 ^ 50" by simp
  finally have "1 / (2::rat) ^ 50 \<le> 1 / 10 ^ k" by (intro divide_left_mono) simp_all
  moreover have "(2::rat) powi (- 50) = 1 / 2 ^ 50" by (simp add: power_int_def field_simps)
  moreover have "(2::rat) powi (- 1022) \<le> 2 powi (- 50)" by (rule p2_mono) simp
  ultimately have "2 powi (- 1022) \<le> u" unfolding u_def by linarith
  with ua have "2 powi (- 1022) \<le> a" by linarith
  from py_float_err[OF apos this] have err: "\<bar>x - a\<bar> \<le> a / 2 ^ 53" by (simp add: x_def)
  have "(of_int \<bar>n\<bar> :: rat) < of_int (10 ^ 15)" using n by (simp only: of_int_less_iff)
  then have "a * 10 ^ k < 10 ^ 15" by (simp add: an)
  then have "a < 10 ^ 15 * u" by (simp add: u_def pos_less_divide_eq)
  then have "a / 2 ^ 53 < 10 ^ 15 * u / 2 ^ 53" by (intro divide_strict_right_mono) simp_all
  also have "\<dots> = (10 ^ 15 / 2 ^ 53) * u" by simp
  also have "\<dots> \<le> 1 * u" using upos by (intro mult_right_mono) simp_all
  finally have "a / 2 ^ 53 < u" by simp
  with err have xu: "\<bar>x - a\<bar> < u" by simp
  have "u \<le> 1" by (simp add: u_def)
  have "a \<le> a * 10 ^ k" using apos by (simp add: mult_le_cancel_left1)
  with \<open>a * 10 ^ k < 10 ^ 15\<close> have "a < 10 ^ 15" by simp
  with xu \<open>u \<le> 1\<close> have "x < 10 ^ 15 + 1" by linarith
  also have "\<dots> \<le> (2::rat) ^ 53" by simp
  also have "\<dots> \<le> 2 ^ 1024" by (rule power_increasing) simp_all
  finally have "\<not> huge \<le> x" by (simp add: huge_def)
  then have pf: "py_float q = Some (sgn q * x)"
    using py_float_form[OF q0] by (simp add: x_def a_def)
  define r where "r = sgn q * x"
  have "r - q = sgn q * (x - a)" by (simp add: r_def a_def right_diff_distrib sgn_if)
  then have "\<bar>r - q\<bar> = \<bar>x - a\<bar>" using q0 by (simp add: abs_mult sgn_if)
  with xu have ru: "\<bar>r - q\<bar> < u" by simp
  define c where "c = \<lceil>q\<rceil>"
  have "q \<le> of_int c" unfolding c_def by linarith
  moreover have "q \<noteq> of_int c" unfolding c_def by (rule False)
  ultimately have "q < of_int c" by linarith
  from int_gap[OF q this] have 1: "q + u \<le> of_int c" by (simp add: u_def)
  have "of_int (c - 1) < q" unfolding c_def by linarith
  from int_gap'[OF q this] have 2: "of_int (c - 1) + u \<le> q" by (simp add: u_def)
  from 1 2 ru have "of_int c - 1 < r \<and> r \<le> of_int c" by linarith
  then have "\<lceil>r\<rceil> = c" by (intro ceiling_unique) simp_all
  with pf show ?thesis by (simp add: r_def c_def)
qed

lemma digits_val_snoc: "digits_val (ds @ [c]) = 10 * digits_val ds + (c - 48)"
  by (simp add: digits_val_def)

lemma nat_digits_props:
  "list_all is_digit (nat_digits n) \<and> nat_digits n \<noteq> [] \<and> digits_val (nat_digits n) = n"
proof (induction n rule: nat_digits.induct)
  case (1 n)
  show ?case
  proof (cases "n < 10")
    case True
    then show ?thesis by (simp add: nat_digits.simps[of n] is_digit_def digits_val_def)
  next
    case False
    with 1 have ih: "list_all is_digit (nat_digits (n div 10))" "digits_val (nat_digits (n div 10)) = n div 10"
      by simp_all
    have "n mod 10 < 10" by simp
    then have d: "is_digit (48 + n mod 10)" by (simp add: is_digit_def)
    from False have nd: "nat_digits n = nat_digits (n div 10) @ [48 + n mod 10]"
      by (simp add: nat_digits.simps[of n])
    show ?thesis using ih d by (simp add: nd digits_val_snoc)
  qed
qed

lemma digit_not_space: "is_digit c \<Longrightarrow> \<not> is_space c"
  by (auto simp: is_digit_def is_space_def)

lemma sig_not_space: "c = 45 \<or> is_digit c \<Longrightarrow> \<not> is_space c"
  by (auto simp: is_digit_def is_space_def)

lemma sig_chars: "\<forall>c \<in> set (str_of_int i). c = 45 \<or> is_digit c"
  using nat_digits_props by (auto simp: str_of_int_def list_all_iff)

lemma str_of_int_ne: "str_of_int i \<noteq> []"
  using nat_digits_props by (auto simp: str_of_int_def)

lemma replace_absent: "a \<notin> set s \<Longrightarrow> replace_char a b s = s"
  by (induction s) (auto simp: replace_char_def)

lemma clean_str_of_int: "strip (replace_char 44 [] (str_of_int i)) = str_of_int i"
proof -
  have c: "\<forall>c \<in> set (str_of_int i). c = 45 \<or> is_digit c" by (rule sig_chars)
  then have "44 \<notin> set (str_of_int i)" by (auto simp: is_digit_def)
  then have 1: "replace_char 44 [] (str_of_int i) = str_of_int i" by (rule replace_absent)
  have ns: "\<forall>c \<in> set (str_of_int i). \<not> is_space c"
    using c sig_not_space by blast
  have "hd (str_of_int i) \<in> set (str_of_int i)" "last (str_of_int i) \<in> set (str_of_int i)"
    using str_of_int_ne by simp_all
  with ns have "ends_ok (str_of_int i)" by (simp add: ends_ok_def)
  then show ?thesis by (simp add: 1 strip_ends_ok)
qed

lemma takeWhile_all: "list_all P xs \<Longrightarrow> takeWhile P xs = xs \<and> dropWhile P xs = []"
  by (induction xs) auto

lemma parse_digits:
  assumes "list_all is_digit ds" "ds \<noteq> []"
  shows "parse_number (45 # ds) = Some (True, ds, [])" "parse_number ds = Some (False, ds, [])"
proof -
  from takeWhile_all[OF assms(1)] have tw: "takeWhile is_digit ds = ds" "dropWhile is_digit ds = []"
    by simp_all
  show "parse_number (45 # ds) = Some (True, ds, [])"
    using assms(2) by (simp add: parse_number_def Let_def tw)
  from assms have "is_digit (hd ds)" by (cases ds) auto
  then have "hd ds \<noteq> 45" by (auto simp: is_digit_def)
  then show "parse_number ds = Some (False, ds, [])"
    using assms(2) by (simp add: parse_number_def Let_def tw)
qed

lemma parse_str_of_int:
  "parse_number (str_of_int i) = Some (i < 0, nat_digits (nat \<bar>i\<bar>), [])"
proof -
  define ds where "ds = nat_digits (nat \<bar>i\<bar>)"
  from nat_digits_props[of "nat \<bar>i\<bar>"] have al: "list_all is_digit ds" and ne: "ds \<noteq> []"
    by (simp_all add: ds_def)
  have "str_of_int i = (if i < 0 then 45 # ds else ds)" by (simp add: str_of_int_def ds_def)
  then show ?thesis using parse_digits[OF al ne] by (simp add: ds_def[symmetric])
qed

lemma value_str_of_int: "number_value (i < 0, nat_digits (nat \<bar>i\<bar>), []) = of_int i"
  using nat_digits_props[of "nat \<bar>i\<bar>"] by (simp add: number_value_def)

lemma ceil_value_str_of_int:
  assumes "b64 (of_int i)"
  shows "ceil_value (str_of_int i) = str_of_int i"
  using py_float_exact[OF assms]
  by (simp add: ceil_value_def clean_str_of_int parse_str_of_int value_str_of_int)

lemma ceil_value_cases:
  "ceil_value v = v \<or> (\<exists>i. b64 (of_int i) \<and> ceil_value v = str_of_int i)"
proof -
  define s where "s = strip (replace_char 44 [] v)"
  show ?thesis
  proof (cases "parse_number s")
    case None then show ?thesis by (simp add: ceil_value_def s_def)
  next
    case (Some p)
    show ?thesis
    proof (cases "py_float (number_value p)")
      case None with Some show ?thesis by (simp add: ceil_value_def s_def)
    next
      case (Some r)
      then have "b64 (of_int \<lceil>r\<rceil>)" by (intro b64_ceiling py_float_b64)
      moreover have "ceil_value v = str_of_int \<lceil>r\<rceil>"
        using Some \<open>parse_number s = Some p\<close> by (simp add: ceil_value_def s_def)
      ultimately show ?thesis by blast
    qed
  qed
qed

lemma ceil_value_idem: "ceil_value (ceil_value v) = ceil_value v"
  using ceil_value_cases[of v] ceil_value_str_of_int by auto

lemma ceil_value_ne: "v \<noteq> [] \<Longrightarrow> ceil_value v \<noteq> []"
  using ceil_value_cases[of v] str_of_int_ne by auto

section \<open>The rounding step\<close>

lemma col_round_idem: "col_round c (col_round c v) = col_round c v"
  using ceil_value_idem ceil_value_ne by (auto simp: col_round_def)

lemma col_round_empty: "col_round c [] = []"
  by (simp add: col_round_def)

lemma ceil_counting_map: "ceil_counting d = map (\<lambda>(k, v). (k, col_round k v)) d"
  by (auto simp: ceil_counting_def col_round_def)

lemma ceil_counting_idem: "ceil_counting (ceil_counting d) = ceil_counting d"
  by (simp add: ceil_counting_map col_round_idem split_def o_def)

lemma get_dict_set:
  "dict_get_default (dict_set d k v) k' x = (if k' = k then v else dict_get_default d k' x)"
  by (induction d) (auto simp: dict_get_default_def dict_get_def)

lemma cr_idem: "cr (cr v) = cr v"
  using ceil_value_idem ceil_value_ne by (auto simp: cr_def)

lemma get_round_step:
  "dict_get_default (round_step c r) k [] = (if k = c then cr (dict_get_default r c []) else dict_get_default r k [])"
  by (auto simp: round_step_def Let_def get_dict_set cr_def)

lemma get_fold_round:
  "dict_get_default (fold round_step cols r) k [] =
     (if k \<in> set cols then cr (dict_get_default r k []) else dict_get_default r k [])"
proof (induction cols arbitrary: r)
  case Nil show ?case by simp
next
  case (Cons c cols)
  show ?case by (simp add: Cons.IH get_round_step cr_idem)
qed

lemma get_fold_set:
  "dict_get_default (fold (\<lambda>(k, v) d. dict_set d k v) (map (\<lambda>k. (k, h k)) ks) d) k' x =
     (if k' \<in> set ks then h k' else dict_get_default d k' x)"
proof (induction ks arbitrary: d rule: rev_induct)
  case Nil show ?case by simp
next
  case (snoc k ks)
  show ?case by (simp add: get_dict_set snoc.IH)
qed

lemma zip_map_self: "zip xs (map f xs) = map (\<lambda>x. (x, f x)) xs"
  by (induction xs) auto

lemma csv_round_char:
  "round_counting_columns_in_csv (header, lines) =
     (header, map (\<lambda>line. map (\<lambda>k. col_round k
        (dict_get_default (fold (\<lambda>(k, v) d. dict_set d k v) (zip header line) []) k [])) header) lines)"
proof -
  have step: "(\<lambda>c r. if dict_get_default r c [] = [] then r
                 else dict_set r c (ceil_value (dict_get_default r c []))) = round_step"
    by (intro ext) (simp add: round_step_def Let_def)
  have "\<And>r k. k \<in> set header \<Longrightarrow>
      dict_get_default (fold round_step (filter (\<lambda>c. c \<in> set COUNTING \<and> c \<notin> set SKIP_ROUND) header) r) k []
      = col_round k (dict_get_default r k [])"
    by (auto simp: get_fold_round col_round_def cr_def)
  then show ?thesis
    by (simp add: round_counting_columns_in_csv_def read_csv_def write_csv_def Let_def step o_def)
qed

lemma csv_round_idem:
  "round_counting_columns_in_csv (round_counting_columns_in_csv f) = round_counting_columns_in_csv f"
proof (cases f)
  case (Pair header lines)
  have "\<And>h k. k \<in> set header \<Longrightarrow>
     dict_get_default (fold (\<lambda>(k, v) d. dict_set d k v) (zip header (map h header)) []) k [] = h k"
    by (simp add: zip_map_self get_fold_set)
  then show ?thesis
    by (simp add: Pair csv_round_char o_def col_round_idem)
qed

lemma parse_number_digits:
  assumes "parse_number s = Some (neg, ip, fp)"
  shows "list_all is_digit ip" "ip \<noteq> []" "list_all is_digit fp"
proof -
  define r where "r = (if s \<noteq> [] \<and> hd s = 45 then tl s else s)"
  from assms have ip: "ip = takeWhile is_digit r" and ne: "ip \<noteq> []"
    and fp: "fp = [] \<or> list_all is_digit fp"
    by (auto simp: parse_number_def Let_def r_def split: if_splits)
  show "ip \<noteq> []" by (rule ne)
  show "list_all is_digit ip" unfolding ip list_all_iff by (auto dest: set_takeWhileD)
  from fp show "list_all is_digit fp" by auto
qed

lemma digits_val_bound: "list_all is_digit ds \<Longrightarrow> digits_val ds < 10 ^ length ds"
proof (induction ds rule: rev_induct)
  case Nil show ?case by (simp add: digits_val_def)
next
  case (snoc c ds)
  then have "digits_val ds < 10 ^ length ds" and "c - 48 \<le> 9" by (auto simp: is_digit_def)
  then show ?case by (simp add: digits_val_snoc)
qed

lemma ceil_value_short:
  assumes p: "parse_number (strip (replace_char 44 [] v)) = Some (neg, ip, fp)"
    and len: "length ip + length fp \<le> 15"
  shows "ceil_value v = str_of_int \<lceil>number_value (neg, ip, fp)\<rceil>"
proof -
  define n where "n = digits_val (ip @ fp)"
  define q where "q = number_value (neg, ip, fp)"
  define z :: int where "z = (if neg then - int n else int n)"
  from parse_number_digits[OF p] have "list_all is_digit (ip @ fp)" by simp
  then have "n < 10 ^ length (ip @ fp)" unfolding n_def by (rule digits_val_bound)
  also have "\<dots> \<le> 10 ^ 15" using len by (intro power_increasing) simp_all
  finally have "int n < int (10 ^ 15)" by (simp only: of_nat_less_iff)
  then have "int n < 10 ^ 15" by simp
  then have z: "\<bar>z\<bar> < 10 ^ 15" by (simp add: z_def)
  have qz: "q * 10 ^ length fp = of_int z"
    by (simp add: q_def number_value_def n_def z_def)
  from len have "length fp \<le> 15" by simp
  from py_float_short[OF qz z this] obtain r where "py_float q = Some r" "\<lceil>r\<rceil> = \<lceil>q\<rceil>" by blast
  then show ?thesis using p by (simp add: ceil_value_def q_def)
qed



lemmas str_eval = str_def parse_number_def is_digit_def Let_def is_space_def strip_def lstrip_def
  rstrip_def replace_char_def number_value_def digits_val_def

lemma W_counting: "str ''W'' \<in> set COUNTING" "str ''W'' \<notin> set SKIP_ROUND"
  by (simp_all add: COUNTING_def SKIP_ROUND_def str_def)


lemma ex42: "ceil_value (str ''4.2'') = str ''5''"
proof -
  have "parse_number (strip (replace_char 44 [] (str ''4.2''))) = Some (False, str ''4'', str ''2'')"
    by (simp add: str_eval)
  from ceil_value_short[OF this] have "ceil_value (str ''4.2'') = str_of_int \<lceil>number_value (False, str ''4'', str ''2'')\<rceil>"
    by (simp add: str_def)
  also have "number_value (False, str ''4'', str ''2'') = 42 / 10" by (simp add: str_eval)
  also have "\<lceil>42 / 10 :: rat\<rceil> = 5" by (rule ceiling_unique) simp_all
  also have "str_of_int 5 = str ''5''" by (simp add: str_of_int_def nat_digits.simps str_def)
  finally show ?thesis .
qed












text \<open>
  Claim C10. The ceiling transform is idempotent: applying \<open>ceil_counting\<close> to a mapping it
  has already rounded, or the CSV rounding step to its own output file, changes nothing; and
  every value the transform writes is the decimal string of an integer that the transform maps
  to itself.
\<close>

theorem ceil_transform_idempotent:
  "ceil_counting (ceil_counting d) = ceil_counting d \<and>
   round_counting_columns_in_csv (round_counting_columns_in_csv f) = round_counting_columns_in_csv f \<and>
   (\<forall>p r. parse_number (strip (replace_char 44 [] v)) = Some p \<longrightarrow>
          py_float (number_value p) = Some r \<longrightarrow>
          ceil_value v = str_of_int \<lceil>r\<rceil> \<and> ceil_value (str_of_int \<lceil>r\<rceil>) = str_of_int \<lceil>r\<rceil>)"
proof -
  have "ceil_value v = str_of_int \<lceil>r\<rceil> \<and> ceil_value (str_of_int \<lceil>r\<rceil>) = str_of_int \<lceil>r\<rceil>"
    if "parse_number (strip (replace_char 44 [] v)) = Some p" "py_float (number_value p) = Some r" for p r
  proof -
    have 1: "ceil_value v = str_of_int \<lceil>r\<rceil>" using that by (simp add: ceil_value_def)
    have "b64 (of_int \<lceil>r\<rceil>)" using that(2) by (intro b64_ceiling py_float_b64)
    then show ?thesis using 1 by (simp add: ceil_value_str_of_int)
  qed
  then show ?thesis using ceil_counting_idem csv_round_idem by blast
qed

text \<open>Witness for C10: the value \<open>4.2\<close> of the column \<open>W\<close>.\<close>

theorem ceil_transform_idempotent_witness:
  "ceil_counting (ceil_counting [(str ''W'', str ''4.2'')]) = ceil_counting [(str ''W'', str ''4.2'')] \<and>
   round_counting_columns_in_csv (round_counting_columns_in_csv ([str ''W''], [[str ''4.2'']])) =
     round_counting_columns_in_csv ([str ''W''], [[str ''4.2'']]) \<and>
   ceil_value (str ''4.2'') = str ''5'' \<and> ceil_value (str ''5'') = str ''5''"
proof -
  have p: "parse_number (strip (replace_char 44 [] (str ''4.2''))) = Some (False, str ''4'', str ''2'')"
    by (simp add: str_eval)
  have q: "number_value (False, str ''4'', str ''2'') * 10 ^ 1 = of_int 42" by (simp add: str_eval)
  have "\<bar>42 :: int\<bar> < 10 ^ 15" "(1::nat) \<le> 15" by simp_all
  from py_float_short[OF q this] obtain r where
    r: "py_float (number_value (False, str ''4'', str ''2'')) = Some r"
    and "\<lceil>r\<rceil> = \<lceil>number_value (False, str ''4'', str ''2'')\<rceil>" by blast
  moreover have "number_value (False, str ''4'', str ''2'') = 42 / 10" by (simp add: str_eval)
  moreover have "\<lceil>42 / 10 :: rat\<rceil> = 5" by (rule ceiling_unique) simp_all
  ultimately have c: "\<lceil>r\<rceil> = 5" by simp
  have s: "str_of_int 5 = str ''5''" by (simp add: str_of_int_def nat_digits.simps str_def)
  from ceil_transform_idempotent[of "[(str ''W'', str ''4.2'')]" "([str ''W''], [[str ''4.2'']])" "str ''4.2''"]
  show ?thesis using p r c s by auto
qed

section \<open>The career-average row locator\<close>

lemma starts_with_iff: "starts_with p s \<longleftrightarrow> (\<exists>b. s = p @ b)"
  by (induction p s rule: starts_with.induct) auto

lemma contains_iff: "contains p s \<longleftrightarrow> (\<exists>a b. s = a @ p @ b)"
proof (induction s)
  case Nil show ?case by auto
next
  case (Cons c cs)
  show ?case
  proof
    assume "contains p (c # cs)"
    then consider "starts_with p (c # cs)" | "contains p cs" by auto
    then show "\<exists>a b. c # cs = a @ p @ b"
    proof cases
      case 1
      then obtain b where "c # cs = p @ b" by (auto simp: starts_with_iff)
      then have "c # cs = [] @ p @ b" by simp
      then show ?thesis by blast
    next
      case 2
      with Cons obtain a b where "cs = a @ p @ b" by auto
      then have "c # cs = (c # a) @ p @ b" by simp
      then show ?thesis by blast
    qed
  next
    assume "\<exists>a b. c # cs = a @ p @ b"
    then obtain a b where ab: "c # cs = a @ p @ b" by blast
    show "contains p (c # cs)"
    proof (cases a)
      case Nil
      with ab have "starts_with p (c # cs)" by (auto simp: starts_with_iff)
      then show ?thesis by simp
    next
      case (Cons x a')
      with ab have "cs = a' @ p @ b" by simp
      then have "contains p cs" using Cons.IH by blast
      then show ?thesis by simp
    qed
  qed
qed

lemma rows_loop_filter:
  "rows_loop tid stat_keys rows candidates =
     candidates @ map (\<lambda>tr. (if tid = str ''pitching_standard'' then 0 else 1,
                               order_row (prune (build_row_raw stat_keys (row_tds tr)))))
                      (filter (\<lambda>tr. label_matches (row_label tr)) rows)"
  by (induction rows arbitrary: candidates) (simp_all add: Let_def)






lemma tag_loop_fold:
  "tag_loop cells (d, u) =
     (fold (\<lambda>td d. dict_set d (friendly (cell_key td)) (cell_val td))
           (filter (\<lambda>td. cell_key td \<noteq> []) cells) d,
      u \<or> (\<exists>td \<in> set cells. cell_key td \<noteq> []))"
  by (induction cells arbitrary: d u) (auto simp: Let_def)

lemma pos_loop_fold:
  "pos_loop stat_keys i cells d =
     fold (\<lambda>(td, k) d. dict_set d (friendly k) (cell_val td)) (zip cells (drop i stat_keys)) d"
proof (induction cells arbitrary: i d)
  case Nil show ?case by simp
next
  case (Cons td tds)
  show ?case
  proof (cases "i \<ge> length stat_keys")
    case True then show ?thesis by simp
  next
    case False
    then have "drop i stat_keys = stat_keys ! i # drop (Suc i) stat_keys"
      by (simp add: Cons_nth_drop_Suc)
    with False show ?thesis by (simp add: Cons.IH)
  qed
qed

lemma build_row_raw_paths:
  "build_row_raw stat_keys cells =
     (if \<exists>td \<in> set cells. cell_key td \<noteq> []
      then fold (\<lambda>td d. dict_set d (friendly (cell_key td)) (cell_val td))
             (filter (\<lambda>td. cell_key td \<noteq> []) cells) []
      else fold (\<lambda>(td, k) d. dict_set d (friendly k) (cell_val td)) (zip cells stat_keys) [])"
proof (cases "\<exists>td \<in> set cells. cell_key td \<noteq> []")
  case True
  then show ?thesis by (simp add: build_row_raw_def tag_loop_fold)
next
  case False
  then have "filter (\<lambda>td. cell_key td \<noteq> []) cells = []" by (auto simp: filter_empty_conv)
  with False show ?thesis by (simp add: build_row_raw_def tag_loop_fold pos_loop_fold)
qed




lemmas key_eval = cell_key_def cell_val_def or_empty_def strip_def lstrip_def rstrip_def lower_def
  lower_char_def replace_char_def is_space_def str_def


lemma untag_key: "cell_key (untag td) = []"
  by (simp add: untag_def cell_key_def or_empty_def strip_def lstrip_def rstrip_def lower_def
        replace_char_def)

lemma untag_val: "cell_val (untag td) = cell_val td"
  by (simp add: untag_def cell_val_def)

lemma zip_take_self:
  "map f xs = take (length xs) ys \<Longrightarrow> zip xs ys = map (\<lambda>x. (x, f x)) xs"
proof (induction xs arbitrary: ys)
  case Nil show ?case by simp
next
  case (Cons x xs)
  then show ?case by (cases ys) auto
qed

text \<open>
  Claim C2, as amended. The loop over the footer rows of a retained table appends one
  candidate for exactly the rows whose normalised label contains both \<open>162\<close> and \<open>avg\<close>, in
  their order. The labels \<open>162 Game Avg\<close> and \<open>162-Game Avg.\<close> match; \<open>Per 162 Game Average\<close>
  does not match, because \<open>average\<close> does not contain \<open>avg\<close>; \<open>Career Totals\<close> and
  \<open>Season Avg\<close> do not match.
\<close>

theorem footer_rows_selected_by_label:
  "rows_loop tid stat_keys rows candidates =
     candidates @ map (\<lambda>tr. (if tid = str ''pitching_standard'' then 0 else 1,
                               order_row (prune (build_row_raw stat_keys (row_tds tr)))))
                      (filter (\<lambda>tr. (\<exists>a b. row_label tr = a @ str ''162'' @ b) \<and>
                                     (\<exists>a b. row_label tr = a @ str ''avg'' @ b)) rows) \<and>
   label_matches (nlabel (str ''162 Game Avg'')) \<and>
   label_matches (nlabel (str ''162-Game Avg.'')) \<and>
   \<not> label_matches (nlabel (str ''Per 162 Game Average'')) \<and>
   \<not> label_matches (nlabel (str ''Career Totals'')) \<and>
   \<not> label_matches (nlabel (str ''Season Avg''))"
proof -
  have m: "\<And>l. label_matches l \<longleftrightarrow> (\<exists>a b. l = a @ str ''162'' @ b) \<and> (\<exists>a b. l = a @ str ''avg'' @ b)"
    by (simp add: label_matches_def contains_iff)
  have 1: "nlabel (str ''162 Game Avg'') = str ''162 game avg''"
    and 2: "nlabel (str ''Per 162 Game Average'') = str ''per 162 game average''"
    and 3: "nlabel (str ''162-Game Avg.'') = str ''162-game avg''"
    and 4: "nlabel (str ''Career Totals'') = str ''career totals''"
    and 5: "nlabel (str ''Season Avg'') = str ''season avg''"
    by (simp_all add: nlabel_def str_def replace_char_def drop_dots_def is_space_def strip_def
          lstrip_def rstrip_def lower_def lower_char_def)
  have e: "label_matches (str ''162 game avg'')" "\<not> label_matches (str ''per 162 game average'')"
    "label_matches (str ''162-game avg'')" "\<not> label_matches (str ''career totals'')"
    "\<not> label_matches (str ''season avg'')"
    by (simp_all add: label_matches_def str_def)
  show ?thesis unfolding 1 2 3 4 5 using e by (simp add: rows_loop_filter m)
qed

text \<open>
  Counterexample to C2 as stated: a footer row labelled \<open>Per 162 Game Average\<close> in the table
  \<open>pitching_standard\<close> yields no candidate.
\<close>

theorem per_162_game_average_counterexample:
  "row_label \<lparr>row_th = Some \<lparr>data_stat = None, cell_text = str ''Per 162 Game Average''\<rparr>,
              row_tds = [\<lparr>data_stat = Some (str ''w''), cell_text = str ''12''\<rparr>]\<rparr> =
     str ''per 162 game average'' \<and>
   rows_loop (str ''pitching_standard'') []
     [\<lparr>row_th = Some \<lparr>data_stat = None, cell_text = str ''Per 162 Game Average''\<rparr>,
       row_tds = [\<lparr>data_stat = Some (str ''w''), cell_text = str ''12''\<rparr>]\<rparr>] [] = []"
proof -
  have 1: "nlabel (str ''Per 162 Game Average'') = str ''per 162 game average''"
    by (simp add: nlabel_def str_def replace_char_def drop_dots_def is_space_def strip_def
          lstrip_def rstrip_def lower_def lower_char_def)
  have 2: "\<not> label_matches (str ''per 162 game average'')"
    by (simp add: label_matches_def str_def)
  show ?thesis by (simp add: row_label_def 1 2)
qed




text \<open>
  Claim C5. When every cell of a row carries a tag and the tags are, position by position, the
  header stat keys, the mapping built from the tags equals the mapping that the positional
  path builds for the same row without its tags.
\<close>

theorem tag_and_position_paths_agree:
  assumes tagged: "\<forall>td \<in> set cells. cell_key td \<noteq> []"
    and aligned: "map cell_key cells = take (length cells) stat_keys"
  shows "order_row (prune (build_row_raw stat_keys cells)) =
         order_row (prune (build_row_raw stat_keys (map untag cells))) \<and>
         build_row_raw stat_keys cells =
           fold (\<lambda>td d. dict_set d (friendly (cell_key td)) (cell_val td)) cells [] \<and>
         build_row_raw stat_keys (map untag cells) =
           fold (\<lambda>(td, k) d. dict_set d (friendly k) (cell_val td)) (zip (map untag cells) stat_keys) []"
proof -
  have f: "filter (\<lambda>td. cell_key td \<noteq> []) cells = cells" using tagged by (intro filter_True) simp
  have a: "build_row_raw stat_keys cells =
      fold (\<lambda>td d. dict_set d (friendly (cell_key td)) (cell_val td)) cells []"
  proof (cases "cells = []")
    case True then show ?thesis by (simp add: build_row_raw_paths)
  next
    case False
    then have "\<exists>td \<in> set cells. cell_key td \<noteq> []" using tagged by (cases cells) auto
    then show ?thesis by (simp add: build_row_raw_paths f)
  qed
  have b: "build_row_raw stat_keys (map untag cells) =
      fold (\<lambda>(td, k) d. dict_set d (friendly k) (cell_val td)) (zip (map untag cells) stat_keys) []"
    by (simp add: build_row_raw_paths untag_key)
  have "map cell_key cells = take (length (map untag cells)) stat_keys" using aligned by simp
  have z: "zip (map untag cells) stat_keys = map (\<lambda>td. (untag td, cell_key td)) cells"
  proof -
    have "zip (map untag cells) stat_keys = map (\<lambda>(x, y). (untag x, y)) (zip cells stat_keys)"
      by (simp add: zip_map1)
    also have "zip cells stat_keys = map (\<lambda>x. (x, cell_key x)) cells"
      using aligned by (rule zip_take_self)
    finally show ?thesis by (simp add: o_def)
  qed
  have "fold (\<lambda>(td, k) d. dict_set d (friendly k) (cell_val td)) (zip (map untag cells) stat_keys) [] =
        fold (\<lambda>td d. dict_set d (friendly (cell_key td)) (cell_val td)) cells []"
    by (simp add: z fold_map o_def untag_val)
  with a b show ?thesis by simp
qed

text \<open>Witness for C5: two tagged cells under the header keys \<open>w\<close>, \<open>l\<close>, \<open>era_plus\<close>.\<close>

theorem tag_and_position_paths_agree_witness:
  "order_row (prune (build_row_raw [str ''w'', str ''l'', str ''era_plus'']
     [\<lparr>data_stat = Some (str ''W''), cell_text = str ''12''\<rparr>,
      \<lparr>data_stat = Some (str ''L''), cell_text = str ''8''\<rparr>])) =
   order_row (prune (build_row_raw [str ''w'', str ''l'', str ''era_plus'']
     [\<lparr>data_stat = None, cell_text = str ''12''\<rparr>,
      \<lparr>data_stat = None, cell_text = str ''8''\<rparr>]))"
proof -
  have k: "cell_key \<lparr>data_stat = Some (str ''W''), cell_text = str ''12''\<rparr> = str ''w''"
    "cell_key \<lparr>data_stat = Some (str ''L''), cell_text = str ''8''\<rparr> = str ''l''"
    by (simp_all add: key_eval)
  have ne: "str ''w'' \<noteq> []" "str ''l'' \<noteq> []" by (simp_all add: str_def)
  have h1: "\<forall>td \<in> set [\<lparr>data_stat = Some (str ''W''), cell_text = str ''12''\<rparr>,
        \<lparr>data_stat = Some (str ''L''), cell_text = str ''8''\<rparr>]. cell_key td \<noteq> []"
    by (simp add: k ne)
  have h2: "map cell_key [\<lparr>data_stat = Some (str ''W''), cell_text = str ''12''\<rparr>,
        \<lparr>data_stat = Some (str ''L''), cell_text = str ''8''\<rparr>] =
      take (length [\<lparr>data_stat = Some (str ''W''), cell_text = str ''12''\<rparr>,
        \<lparr>data_stat = Some (str ''L''), cell_text = str ''8''\<rparr>])
        [str ''w'', str ''l'', str ''era_plus'']"
    by (simp add: k)
  have u: "map untag [\<lparr>data_stat = Some (str ''W''), cell_text = str ''12''\<rparr>,
        \<lparr>data_stat = Some (str ''L''), cell_text = str ''8''\<rparr>] =
      [\<lparr>data_stat = None, cell_text = str ''12''\<rparr>, \<lparr>data_stat = None, cell_text = str ''8''\<rparr>]"
    by (simp add: untag_def)
  from tag_and_position_paths_agree[OF h1 h2, THEN conjunct1] show ?thesis unfolding u .
qed

section \<open>The nickname\<close>

lemma parse_nickname_find:
  "parse_nickname ps = (case find is_nick_para ps of None \<Rightarrow> str ''N/A'' | Some p \<Rightarrow> nick_of p)"
proof (induction ps)
  case Nil show ?case by simp
next
  case (Cons p ps)
  show ?case
  proof (cases "find_strong p")
    case None
    then show ?thesis using Cons by (simp add: is_nick_para_def)
  next
    case (Some strong)
    then show ?thesis using Cons by (simp add: is_nick_para_def nick_of_def Let_def)
  qed
qed

lemma cut_loop_find:
  "cut_loop seps raw = (case find (\<lambda>sep. contains sep raw) seps of None \<Rightarrow> raw | Some sep \<Rightarrow> before sep raw)"
  by (induction seps) simp_all

lemma before_split:
  "sep \<noteq> [] \<Longrightarrow> contains sep raw \<Longrightarrow> \<exists>rest. raw = before sep raw @ sep @ rest"
proof (induction raw)
  case Nil then show ?case by simp
next
  case (Cons c cs)
  show ?case
  proof (cases "starts_with sep (c # cs)")
    case True
    then obtain b where "c # cs = sep @ b" by (auto simp: starts_with_iff)
    moreover from True have "before sep (c # cs) = []" by simp
    ultimately have "c # cs = before sep (c # cs) @ sep @ b" by simp
    then show ?thesis by blast
  next
    case False
    with Cons.prems have "contains sep cs" by simp
    from Cons.IH[OF Cons.prems(1) this] obtain rest where "cs = before sep cs @ sep @ rest" by blast
    then have "c # cs = (c # before sep cs) @ sep @ rest" by simp
    with False show ?thesis by (metis before.simps(2))
  qed
qed

lemma before_first:
  "raw = a @ sep @ b \<Longrightarrow> length (before sep raw) \<le> length a"
proof (induction raw arbitrary: a)
  case Nil then show ?case by simp
next
  case (Cons c cs)
  show ?case
  proof (cases "starts_with sep (c # cs)")
    case True then show ?thesis by simp
  next
    case False
    have "a \<noteq> []"
    proof
      assume "a = []"
      with Cons.prems have "c # cs = sep @ b" by simp
      then have "starts_with sep (c # cs)" by (auto simp: starts_with_iff)
      with False show False by simp
    qed
    then obtain x a' where a: "a = x # a'" by (cases a) auto
    with Cons.prems have "cs = a' @ sep @ b" by simp
    from Cons.IH[OF this] False show ?thesis by (simp add: a)
  qed
qed

lemma ci_prefix_self:
  "\<forall>c \<in> set p. ci_eq c c \<Longrightarrow> ci_prefix p (p @ r) = Some r"
  by (induction p) auto

lemma strip_label_exact:
  "strip_label (str ''Nickname:'' @ r) = dropWhile is_space r"
  "strip_label (str ''Nicknames:'' @ r) = dropWhile is_space r"
  by (simp_all add: strip_label_def str_def ci_eq_def after_colon_def)

lemmas nick_eval = get_text_def p_nodes_def seg_nodes_def strip_def lstrip_def rstrip_def
  is_space_def strip_label_def after_colon_def ci_eq_def SEPARATORS_def str_def Let_def

lemma nick_example:
  "parse_nickname [[Strong [str ''Nickname:''], Plain (str ''Big Papi, The Natural'')]] = str ''Big Papi''"
  by (simp add: nick_eval)

text \<open>
  Claim C8, as amended. The extractor takes the first paragraph whose first \<open>strong\<close> element
  has exactly the text \<open>Nickname:\<close> or \<open>Nicknames:\<close> (the comparison is case-sensitive), and
  \<open>N/A\<close> when there is none. From the text of that paragraph it removes the label prefix
  and the whitespace after it, then cuts at the first occurrence of one separator: the first in
  the order bullet, semicolon, comma, \<open>" / "\<close>, \<open>" | "\<close> that occurs in the text at all. It
  returns the stripped rest, or \<open>N/A\<close> when that is empty; \<open>Big Papi, The Natural\<close> gives
  \<open>Big Papi\<close>.
\<close>

theorem nickname_exact_label_and_separator_priority:
  "parse_nickname ps = (case find is_nick_para ps of None \<Rightarrow> str ''N/A'' | Some p \<Rightarrow> nick_of p) \<and>
   is_nick_para p =
     (\<exists>strong. find_strong p = Some strong \<and>
        (get_text [] strong = str ''Nickname:'' \<or> get_text [] strong = str ''Nicknames:'')) \<and>
   nick_of p =
     (let raw = cut_loop SEPARATORS (strip_label (get_text (str '' '') (p_nodes p)))
      in if strip raw \<noteq> [] then strip raw else str ''N/A'') \<and>
   cut_loop SEPARATORS raw =
     (case find (\<lambda>sep. contains sep raw) SEPARATORS of
        None \<Rightarrow> raw
      | Some sep \<Rightarrow> before sep raw) \<and>
   (sep \<noteq> [] \<longrightarrow> contains sep raw \<longrightarrow>
      (\<exists>rest. raw = before sep raw @ sep @ rest) \<and>
      (\<forall>a b. raw = a @ sep @ b \<longrightarrow> length (before sep raw) \<le> length a)) \<and>
   strip_label (str ''Nickname:'' @ r) = dropWhile is_space r \<and>
   strip_label (str ''Nicknames:'' @ r) = dropWhile is_space r \<and>
   parse_nickname [] = str ''N/A'' \<and>
   parse_nickname [[Strong [str ''Nickname:''], Plain (str ''Big Papi, The Natural'')]] = str ''Big Papi''"
proof -
  have 2: "is_nick_para p =
     (\<exists>strong. find_strong p = Some strong \<and>
        (get_text [] strong = str ''Nickname:'' \<or> get_text [] strong = str ''Nicknames:''))"
    by (cases "find_strong p") (simp_all add: is_nick_para_def)
  have 5: "sep \<noteq> [] \<longrightarrow> contains sep raw \<longrightarrow>
      (\<exists>rest. raw = before sep raw @ sep @ rest) \<and>
      (\<forall>a b. raw = a @ sep @ b \<longrightarrow> length (before sep raw) \<le> length a)"
    using before_split before_first by blast
  have 8: "parse_nickname [] = str ''N/A''" by simp
  from parse_nickname_find 2 nick_of_def cut_loop_find 5 strip_label_exact 8 nick_example
  show ?thesis by (intro conjI) 
qed

text \<open>Witness for C8: the label is in the second paragraph and the separator is the comma.\<close>

theorem nickname_exact_label_and_separator_priority_witness:
  "parse_nickname
     [[Plain (str ''Position: Pitcher'')],
      [Strong [str ''Nicknames:''], Plain (str '' Big Papi, The Natural'')]] = str ''Big Papi'' \<and>
   str ''Big Papi, The Natural'' = before (str '','') (str ''Big Papi, The Natural'') @ str '','' @ str '' The Natural''"
proof -
  have c: "str '','' \<noteq> []" "contains (str '','') (str ''Big Papi, The Natural'')"
    by (simp_all add: str_def)
  have b: "before (str '','') (str ''Big Papi, The Natural'') = str ''Big Papi''"
    by (simp add: str_def)
  have f: "find is_nick_para
     [[Plain (str ''Position: Pitcher'')],
      [Strong [str ''Nicknames:''], Plain (str '' Big Papi, The Natural'')]] =
     Some [Strong [str ''Nicknames:''], Plain (str '' Big Papi, The Natural'')]"
    by (simp add: is_nick_para_def nick_eval)
  have n: "nick_of [Strong [str ''Nicknames:''], Plain (str '' Big Papi, The Natural'')] = str ''Big Papi''"
    by (simp add: nick_of_def nick_eval)
  have "parse_nickname
     [[Plain (str ''Position: Pitcher'')],
      [Strong [str ''Nicknames:''], Plain (str '' Big Papi, The Natural'')]] =
     (case find is_nick_para
        [[Plain (str ''Position: Pitcher'')],
         [Strong [str ''Nicknames:''], Plain (str '' Big Papi, The Natural'')]] of
        None \<Rightarrow> str ''N/A'' | Some p \<Rightarrow> nick_of p)"
    by (rule nickname_exact_label_and_separator_priority[THEN conjunct1])
  then have "parse_nickname
     [[Plain (str ''Position: Pitcher'')],
      [Strong [str ''Nicknames:''], Plain (str '' Big Papi, The Natural'')]] = str ''Big Papi''"
    by (simp only: f option.case n)
  moreover have "str ''Big Papi, The Natural'' = before (str '','') (str ''Big Papi, The Natural'') @ str '','' @ str '' The Natural''"
    by (simp add: b) (simp add: str_def)
  ultimately show ?thesis by (rule conjI)
qed

text \<open>
  Counterexample to C8 as stated: the label \<open>NICKNAME:\<close> equals \<open>Nickname:\<close> when case is
  ignored, yet the extractor returns \<open>N/A\<close> for its paragraph; and a text with a comma before
  a semicolon is cut at the semicolon, not at the first separator that occurs.
\<close>

theorem nickname_label_case_counterexample:
  "lower (get_text [] [str ''NICKNAME:'']) = str ''nickname:'' \<and>
   parse_nickname [[Strong [str ''NICKNAME:''], Plain (str ''Big Papi'')]] = str ''N/A'' \<and>
   parse_nickname [[Strong [str ''Nickname:''], Plain (str ''Big Papi, The Natural; Cookie'')]] =
     str ''Big Papi, The Natural''"
  by (simp add: nick_eval lower_def lower_char_def)

section \<open>The run and its two files\<close>

lemma process_url_append:
  "process_url fetch url (rows, af) = (rows @ [make_rec fetch url], af @ fields_of fetch url)"
  by (simp add: process_url_def make_rec_def fields_of_def Let_def split: option.split prod.split)

lemma fold_process_url:
  "fold (process_url fetch) urls (rows, af) =
     (rows @ map (make_rec fetch) urls, af @ concat (map (fields_of fetch) urls))"
  by (induction urls arbitrary: rows af) (simp_all add: process_url_append)

lemma make_rec_failed:
  "fetch url = None \<Longrightarrow> make_rec fetch url = dict_set (new_rec url) (str ''error'') (str ''fetch_failed'')"
  by (simp add: make_rec_def process_url_def)

lemma base_distinct: "distinct BASE_HEADER" "length BASE_HEADER = 12"
  by (simp_all add: BASE_HEADER_def str_def)

lemma fold_header_props:
  "distinct h \<Longrightarrow>
     distinct (fold (\<lambda>c header. if c \<in> A \<and> c \<notin> set header then header @ [c] else header) cs h) \<and>
     take (length h) (fold (\<lambda>c header. if c \<in> A \<and> c \<notin> set header then header @ [c] else header) cs h) = h"
proof (induction cs arbitrary: h)
  case Nil then show ?case by simp
next
  case (Cons c cs)
  show ?case
  proof (cases "c \<in> A \<and> c \<notin> set h")
    case True
    with Cons.prems have d: "distinct (h @ [c])" by simp
    from Cons.IH[OF d] have 1: "distinct (fold (\<lambda>c header. if c \<in> A \<and> c \<notin> set header then header @ [c] else header) cs (h @ [c]))"
      and 2: "take (length (h @ [c])) (fold (\<lambda>c header. if c \<in> A \<and> c \<notin> set header then header @ [c] else header) cs (h @ [c])) = h @ [c]"
      by simp_all
    from 2 have "take (length h) (take (length (h @ [c])) (fold (\<lambda>c header. if c \<in> A \<and> c \<notin> set header then header @ [c] else header) cs (h @ [c]))) = take (length h) (h @ [c])"
      by simp
    then have "take (length h) (fold (\<lambda>c header. if c \<in> A \<and> c \<notin> set header then header @ [c] else header) cs (h @ [c])) = h"
      by (simp add: min_def)
    with 1 True show ?thesis by simp
  next
    case False
    with Cons.IH[OF Cons.prems] show ?thesis by auto
  qed
qed

lemma build_header_props:
  "distinct (build_header af)" "take 12 (build_header af) = BASE_HEADER"
proof -
  define h where "h = fold (\<lambda>c header. if c \<in> set af \<and> c \<notin> set header then header @ [c] else header) PREFERRED BASE_HEADER"
  from fold_header_props[OF base_distinct(1), of "set af" PREFERRED]
  have d: "distinct h" and t: "take 12 h = BASE_HEADER" by (simp_all add: h_def base_distinct(2))
  have b: "build_header af = h @ sort (remdups (filter (\<lambda>c. c \<notin> set h) af))"
    by (simp add: build_header_def Let_def h_def)
  show "distinct (build_header af)" using d by (auto simp: b)
  from t have "length h \<ge> 12" by (metis base_distinct(2) length_take min.cobounded1 min.commute)
  then show "take 12 (build_header af) = BASE_HEADER" using t by (simp add: b)
qed

lemma read_back:
  assumes "distinct header" "k \<in> set header"
  shows "dict_get_default (fold (\<lambda>(k, v) d. dict_set d k v) (zip header (map h header)) []) k [] = h k"
  using assms by (simp add: zip_map_self get_fold_set)

lemma csv_round_written:
  "round_counting_columns_in_csv (write_csv header rows) =
     (header, map (\<lambda>r. map (\<lambda>k. col_round k (dict_get_default r k [])) header) rows)"
proof -
  have "\<And>h k. k \<in> set header \<Longrightarrow>
     dict_get_default (fold (\<lambda>(k, v) d. dict_set d k v) (zip header (map h header)) []) k [] = h k"
    by (simp add: zip_map_self get_fold_set)
  then show ?thesis by (simp add: write_csv_def csv_round_char o_def)
qed

lemma run_files:
  "run urls fetch =
     (let header = build_header (concat (map (fields_of fetch) urls))
      in ((header, map (\<lambda>u. map (\<lambda>k. dict_get_default (make_rec fetch u) k []) header) urls),
          (header, map (\<lambda>u. map (\<lambda>k. col_round k (dict_get_default (make_rec fetch u) k [])) header) urls)))"
  by (simp add: run_def fold_process_url Let_def csv_round_written) (simp add: write_csv_def o_def)

lemma get_absent: "k \<notin> set (map fst d) \<Longrightarrow> dict_get_default d k x = x"
  by (simp add: dict_get_default_def dict_get_def map_of_eq_None_iff[THEN iffD2])

lemma new_rec_keys: "map fst (new_rec url) = BASE_HEADER"
  by (simp add: new_rec_def BASE_HEADER_def)

lemma error_plain: "col_round (str ''error'') v = v"
  by (simp add: col_round_def COUNTING_def str_def)

lemma header_nth:
  assumes "take 12 h = BASE_HEADER"
  shows "h ! 10 = str ''BaseballReferenceURL''" "h ! 11 = str ''error''" "12 \<le> length h"
proof -
  have l: "length (take 12 h) = 12" by (simp add: assms base_distinct(2))
  then show "12 \<le> length h" by simp
  have "h ! 10 = take 12 h ! 10" "h ! 11 = take 12 h ! 11" by simp_all
  then show "h ! 10 = str ''BaseballReferenceURL''" "h ! 11 = str ''error''"
    by (simp_all add: assms BASE_HEADER_def)
qed

lemma header_tail_not_base:
  assumes "distinct h" "take 12 h = BASE_HEADER" "12 \<le> j" "j < length h"
  shows "h ! j \<notin> set BASE_HEADER"
proof
  assume "h ! j \<in> set BASE_HEADER"
  then have "h ! j \<in> set (take 12 h)" by (simp add: assms(2))
  then obtain m where m: "m < 12" "m < length h" "h ! m = h ! j"
    by (auto simp: in_set_conv_nth)
  with assms(1,4) have "m = j" by (simp add: nth_eq_iff_index_eq)
  with m(1) assms(3) show False by simp
qed

lemma make_rec_not_found:
  assumes "fetch url = Some html" "find_pitching_162_row (live_tables html) (comments html) = None"
  shows "dict_get_default (make_rec fetch url) (str ''error'') [] = str ''162_row_not_found''"
  using assms
  by (simp add: make_rec_def process_url_def Let_def get_dict_set split: prod.split)

lemma fields_of_failed: "fetch url = None \<Longrightarrow> fields_of fetch url = []"
  by (simp add: fields_of_def process_url_def)

lemma make_rec_found:
  assumes "fetch url = Some html" "find_pitching_162_row (live_tables html) (comments html) = Some row"
    "row \<noteq> []"
  shows "\<exists>rec2. make_rec fetch url = dict_update rec2 (ceil_counting row)"
    and "fields_of fetch url = dict_keys (ceil_counting row)"
  using assms
  by (auto simp add: make_rec_def fields_of_def process_url_def Let_def split: prod.split)

lemma example_row:
  "find_pitching_162_row (live_tables example_page) (comments example_page) =
     Some [(str ''W'', str ''12.4'')]"
proof -
  have l: "row_label \<lparr>row_th = Some \<lparr>data_stat = None, cell_text = str ''162 Game Avg''\<rparr>,
                       row_tds = [\<lparr>data_stat = Some (str ''w''), cell_text = str ''12.4''\<rparr>]\<rparr> =
           str ''162 game avg''"
    by (simp add: row_label_def nlabel_def str_def replace_char_def drop_dots_def is_space_def
          strip_def lstrip_def rstrip_def lower_def lower_char_def)
  have m: "label_matches (str ''162 game avg'')" by (simp add: label_matches_def str_def)
  have k: "cell_key \<lparr>data_stat = Some (str ''w''), cell_text = str ''12.4''\<rparr> = str ''w''"
    "cell_val \<lparr>data_stat = Some (str ''w''), cell_text = str ''12.4''\<rparr> = str ''12.4''"
    by (simp_all add: key_eval)
  have f: "friendly (str ''w'') = str ''W''"
    by (simp add: friendly_def dict_get_def KEY_MAP_def str_def)
  have b: "build_row_raw [] [\<lparr>data_stat = Some (str ''w''), cell_text = str ''12.4''\<rparr>] =
      [(str ''W'', str ''12.4'')]"
    by (simp add: build_row_raw_paths k f) (simp add: str_def)
  have p: "prune [(str ''W'', str ''12.4'')] = [(str ''W'', str ''12.4'')]"
    by (simp add: prune_def str_def)
  have o: "order_row [(str ''W'', str ''12.4'')] = [(str ''W'', str ''12.4'')]"
    by (simp add: order_row_def PREFERRED_def dict_get_def dict_keys_def str_def)
  have t: "table_tid \<lparr>table_id = Some (str ''pitching_standard''), thead = None,
          tfoot = Some [\<lparr>row_th = Some \<lparr>data_stat = None, cell_text = str ''162 Game Avg''\<rparr>,
                         row_tds = [\<lparr>data_stat = Some (str ''w''), cell_text = str ''12.4''\<rparr>]\<rparr>]\<rparr> =
        str ''pitching_standard''"
    by (simp add: table_tid_def or_empty_def lower_def lower_char_def str_def)
  have c: "contains (str ''pitch'') (str ''pitching_standard'')" by (simp add: str_def)
  show ?thesis
    by (simp add: example_page_def find_pitching_162_row_def iter_all_tables_def Let_def t c
          build_header_stat_keys_def l m b p o)
qed

lemma example_ceil: "ceil_counting [(str ''W'', str ''12.4'')] = [(str ''W'', str ''13'')]"
proof -
  have p: "parse_number (strip (replace_char 44 [] (str ''12.4''))) = Some (False, str ''12'', str ''4'')"
    by (simp add: str_eval)
  have l: "length (str ''12'') + length (str ''4'') \<le> 15" by (simp add: str_def)
  have a: "number_value (False, str ''12'', str ''4'') = 124 / 10" by (simp add: str_eval)
  have "\<lceil>124 / 10 :: rat\<rceil> = 13" by (rule ceiling_unique) simp_all
  then have "\<lceil>number_value (False, str ''12'', str ''4'')\<rceil> = 13" by (simp only: a)
  moreover have "str_of_int 13 = str ''13''" by (simp add: str_of_int_def nat_digits.simps str_def)
  ultimately have "ceil_value (str ''12.4'') = str ''13''"
    using ceil_value_short[OF p l] by simp
  moreover have "str ''12.4'' \<noteq> []" by (simp add: str_def)
  ultimately show ?thesis using W_counting by (simp add: ceil_counting_def)
qed

text \<open>
  Claim C6. The run writes one line per URL in each file, whatever the fetches return, and
  both files have the same header, which starts with the twelve bio and meta columns; every
  line has as many fields as the header. For a subject whose fetch fails, the \<open>error\<close> column
  (the twelfth, the record's error status) is \<open>fetch_failed\<close> in both files, the URL column
  holds the URL, and every statistic column is empty. For a subject whose page has no
  career-average row, the \<open>error\<close> column is \<open>162_row_not_found\<close> in both files.
\<close>

theorem failed_subject_still_one_row:
  assumes "i < length urls"
  shows "fst (snd (run urls fetch)) = fst (fst (run urls fetch)) \<and>
         take 12 (fst (fst (run urls fetch))) = BASE_HEADER \<and>
         length (snd (fst (run urls fetch))) = length urls \<and>
         length (snd (snd (run urls fetch))) = length urls \<and>
         length (snd (fst (run urls fetch)) ! i) = length (fst (fst (run urls fetch))) \<and>
         length (snd (snd (run urls fetch)) ! i) = length (fst (fst (run urls fetch))) \<and>
         (fetch (urls ! i) = None \<longrightarrow>
            snd (fst (run urls fetch)) ! i ! 11 = str ''fetch_failed'' \<and>
            snd (snd (run urls fetch)) ! i ! 11 = str ''fetch_failed'' \<and>
            snd (fst (run urls fetch)) ! i ! 10 = urls ! i \<and>
            (\<forall>j. 12 \<le> j \<longrightarrow> j < length (fst (fst (run urls fetch))) \<longrightarrow>
                 snd (fst (run urls fetch)) ! i ! j = [] \<and>
                 snd (snd (run urls fetch)) ! i ! j = [])) \<and>
         (\<forall>html. fetch (urls ! i) = Some html \<longrightarrow>
            find_pitching_162_row (live_tables html) (comments html) = None \<longrightarrow>
            snd (fst (run urls fetch)) ! i ! 11 = str ''162_row_not_found'' \<and>
            snd (snd (run urls fetch)) ! i ! 11 = str ''162_row_not_found'')"
proof -
  define h where "h = build_header (concat (map (fields_of fetch) urls))"
  define u where "u = urls ! i"
  have d: "distinct h" and t: "take 12 h = BASE_HEADER" by (simp_all add: h_def build_header_props)
  note hn = header_nth[OF t]
  have R: "run urls fetch =
      ((h, map (\<lambda>u. map (\<lambda>k. dict_get_default (make_rec fetch u) k []) h) urls),
       (h, map (\<lambda>u. map (\<lambda>k. col_round k (dict_get_default (make_rec fetch u) k [])) h) urls))"
    by (simp add: run_files h_def Let_def)
  have raw: "\<And>j. j < length h \<Longrightarrow> snd (fst (run urls fetch)) ! i ! j = dict_get_default (make_rec fetch u) (h ! j) []"
    using assms by (simp add: R u_def)
  have rnd: "\<And>j. j < length h \<Longrightarrow> snd (snd (run urls fetch)) ! i ! j =
      col_round (h ! j) (dict_get_default (make_rec fetch u) (h ! j) [])"
    using assms by (simp add: R u_def)
  have shape: "fst (snd (run urls fetch)) = fst (fst (run urls fetch))"
    "take 12 (fst (fst (run urls fetch))) = BASE_HEADER"
    "length (snd (fst (run urls fetch))) = length urls"
    "length (snd (snd (run urls fetch))) = length urls"
    "length (snd (fst (run urls fetch)) ! i) = length (fst (fst (run urls fetch)))"
    "length (snd (snd (run urls fetch)) ! i) = length (fst (fst (run urls fetch)))"
    using assms t by (simp_all add: R)
  have hh: "fst (fst (run urls fetch)) = h" by (simp add: R)
  have e11: "11 < length h" and e10: "10 < length h" using hn(3) by simp_all
  have failed: "snd (fst (run urls fetch)) ! i ! 11 = str ''fetch_failed'' \<and>
            snd (snd (run urls fetch)) ! i ! 11 = str ''fetch_failed'' \<and>
            snd (fst (run urls fetch)) ! i ! 10 = urls ! i \<and>
            (\<forall>j. 12 \<le> j \<longrightarrow> j < length (fst (fst (run urls fetch))) \<longrightarrow>
                 snd (fst (run urls fetch)) ! i ! j = [] \<and>
                 snd (snd (run urls fetch)) ! i ! j = [])"
    if f: "fetch (urls ! i) = None"
  proof -
    have m: "make_rec fetch u = dict_set (new_rec u) (str ''error'') (str ''fetch_failed'')"
      using f by (simp add: u_def make_rec_failed)
    have a: "dict_get_default (make_rec fetch u) (str ''error'') [] = str ''fetch_failed''"
      by (simp add: m get_dict_set)
    have b: "dict_get_default (make_rec fetch u) (str ''BaseballReferenceURL'') [] = u"
      by (simp add: m get_dict_set) (simp add: new_rec_def dict_get_default_def dict_get_def str_def)
    have c: "dict_get_default (make_rec fetch u) (h ! j) [] = []" if "12 \<le> j" "j < length h" for j
    proof -
      from header_tail_not_base[OF d t that] have nb: "h ! j \<notin> set BASE_HEADER" .
      moreover have "str ''error'' \<in> set BASE_HEADER" by (simp add: BASE_HEADER_def)
      ultimately have "h ! j \<noteq> str ''error''" by auto
      then show ?thesis using nb by (simp add: m get_dict_set get_absent new_rec_keys)
    qed
    show ?thesis
      using a b c raw[OF e11] rnd[OF e11] raw[OF e10] raw rnd
      by (simp add: hn(1,2) error_plain hh col_round_empty u_def)
  qed
  have notfound: "snd (fst (run urls fetch)) ! i ! 11 = str ''162_row_not_found'' \<and>
            snd (snd (run urls fetch)) ! i ! 11 = str ''162_row_not_found''"
    if "fetch (urls ! i) = Some html" "find_pitching_162_row (live_tables html) (comments html) = None"
    for html
  proof -
    from that(1) have "fetch u = Some html" by (simp add: u_def)
    then have "dict_get_default (make_rec fetch u) (str ''error'') [] = str ''162_row_not_found''"
      using that(2) by (rule make_rec_not_found)
    then show ?thesis using raw[OF e11] rnd[OF e11] by (simp add: hn(2) error_plain)
  qed
  show ?thesis using shape failed notfound by blast
qed

text \<open>
  Witness for C6: a run over two URLs, the first with a failed fetch and the second with a
  page without tables.
\<close>

theorem failed_subject_still_one_row_witness:
  "snd (fst (run [str ''a'', str ''b'']
      (\<lambda>u. if u = str ''a'' then None
           else Some \<lparr>h1_text = None, meta = None, live_tables = [], comments = []\<rparr>))) ! 0 ! 11 =
     str ''fetch_failed'' \<and>
   snd (snd (run [str ''a'', str ''b'']
      (\<lambda>u. if u = str ''a'' then None
           else Some \<lparr>h1_text = None, meta = None, live_tables = [], comments = []\<rparr>))) ! 0 ! 11 =
     str ''fetch_failed'' \<and>
   snd (fst (run [str ''a'', str ''b'']
      (\<lambda>u. if u = str ''a'' then None
           else Some \<lparr>h1_text = None, meta = None, live_tables = [], comments = []\<rparr>))) ! 1 ! 11 =
     str ''162_row_not_found'' \<and>
   snd (snd (run [str ''a'', str ''b'']
      (\<lambda>u. if u = str ''a'' then None
           else Some \<lparr>h1_text = None, meta = None, live_tables = [], comments = []\<rparr>))) ! 1 ! 11 =
     str ''162_row_not_found''"
proof -
  define F :: "pystr \<Rightarrow> page option" where
    "F = (\<lambda>u. if u = str ''a'' then None
           else Some \<lparr>h1_text = None, meta = None, live_tables = [], comments = []\<rparr>)"
  define U where "U = [str ''a'', str ''b'']"
  have 0: "(0::nat) < length U" and 1: "(1::nat) < length U" by (simp_all add: U_def)
  have f0: "F (U ! 0) = None" by (simp add: F_def U_def)
  have f1: "F (U ! 1) = Some \<lparr>h1_text = None, meta = None, live_tables = [], comments = []\<rparr>"
    by (simp add: F_def U_def str_def)
  have nf: "find_pitching_162_row
      (live_tables \<lparr>h1_text = None, meta = None, live_tables = [], comments = []\<rparr>)
      (comments \<lparr>h1_text = None, meta = None, live_tables = [], comments = []\<rparr>) = None"
    by (simp add: find_pitching_162_row_def iter_all_tables_def)
  from failed_subject_still_one_row[OF 0, of F] f0
  have a: "snd (fst (run U F)) ! 0 ! 11 = str ''fetch_failed''"
    "snd (snd (run U F)) ! 0 ! 11 = str ''fetch_failed''" by simp_all
  from failed_subject_still_one_row[OF 1, of F] f1 nf
  have b: "snd (fst (run U F)) ! 1 ! 11 = str ''162_row_not_found''"
    "snd (snd (run U F)) ! 1 ! 11 = str ''162_row_not_found''" by simp_all
  from a b show ?thesis unfolding F_def U_def by simp
qed

text \<open>
  Claim C1 says that the raw file holds the unrounded cell values of the career-average row
  and that rounding touches the second file only. The code does otherwise: the record is
  updated with the result of \<open>ceil_counting\<close>, so the value written to the raw file is
  already rounded. In the example the locator finds the cell \<open>12.4\<close> of the column \<open>W\<close>,
  the header of the raw file is the base header followed by \<open>W\<close>, and the raw file holds
  \<open>13\<close> in that column.
\<close>

theorem raw_file_holds_rounded_value:
  "find_pitching_162_row (live_tables example_page) (comments example_page) =
     Some [(str ''W'', str ''12.4'')] \<and>
   fst (fst (main example_fetch)) = BASE_HEADER @ [str ''W''] \<and>
   snd (fst (main example_fetch)) ! 0 ! 12 = str ''13''"
proof -
  define u0 u1 u2 where "u0 = URLS ! 0" and "u1 = URLS ! 1" and "u2 = URLS ! 2"
  have u: "URLS = [u0, u1, u2]" "hd URLS = u0" "u1 \<noteq> u0" "u2 \<noteq> u0"
    by (simp_all add: u0_def u1_def u2_def URLS_def str_def)
  have f0: "example_fetch u0 = Some example_page" by (simp add: example_fetch_def u(2))
  have f1: "example_fetch u1 = None" "example_fetch u2 = None"
    using u(3,4) by (simp_all add: example_fetch_def u(2))
  have ne: "[(str ''W'', str ''12.4'')] \<noteq> []" by simp
  from make_rec_found[where fetch = example_fetch and url = u0, OF f0 example_row ne]
  obtain rec2 where
    m: "make_rec example_fetch u0 = dict_update rec2 [(str ''W'', str ''13'')]"
    and fl: "fields_of example_fetch u0 = [str ''W'']"
    by (auto simp: example_ceil dict_keys_def)
  have fo: "fields_of example_fetch u1 = []" "fields_of example_fetch u2 = []"
    using f1 by (simp_all add: fields_of_failed)
  have af: "concat (map (fields_of example_fetch) URLS) = [str ''W'']"
    by (simp add: u(1) fl fo)
  have h: "build_header [str ''W''] = BASE_HEADER @ [str ''W'']"
    by (simp add: build_header_def PREFERRED_def BASE_HEADER_def str_def)
  have g: "dict_get_default (make_rec example_fetch u0) (str ''W'') [] = str ''13''"
    by (simp add: m dict_update_def get_dict_set)
  have R: "fst (main example_fetch) =
      (BASE_HEADER @ [str ''W''],
       map (\<lambda>u. map (\<lambda>k. dict_get_default (make_rec example_fetch u) k []) (BASE_HEADER @ [str ''W''])) URLS)"
    by (simp add: main_def run_files af h Let_def)
  have 3: "snd (fst (main example_fetch)) ! 0 ! 12 = str ''13''"
    unfolding R by (simp add: u(1) nth_append base_distinct(2) g)
  from example_row R 3 show ?thesis by simp
qed

end
